theory Spec2Isabelle
  imports Main "HOL-Library.AList"
begin

section \<open>Part 1: the recency cache over interval keys (part\_1.py)\<close>

subsection \<open>Python values the model needs\<close>

text \<open>Exceptions the modelled code can raise, as values.\<close>

datatype py_error = IndexError | KeyError | ValueError | AttributeError | RecursionError

text \<open>
  A cache key is the tuple \<open>(left, right)\<close>; Python integers are unbounded.
  An \<open>OrderedDict\<close> is an association list in iteration order: the head is the
  oldest (least recently used) entry, the last element the newest.  Python keeps the
  keys of a dictionary pairwise distinct.
\<close>

type_synonym Key = "int \<times> int"
type_synonym OrderedDict = "(Key \<times> int) list"

definition od_contains :: "OrderedDict \<Rightarrow> Key \<Rightarrow> bool" where
  "od_contains d k = (k \<in> fst ` set d)"

text \<open>
  \<open>d.move_to_end(key)\<close>: the entry goes to the newest end.  The library raises
  \<open>KeyError\<close> for a missing key; both call sites are guarded by \<open>key in self._cache\<close>,
  and for a missing key the model leaves the dictionary as it is.
\<close>

definition move_to_end :: "OrderedDict \<Rightarrow> Key \<Rightarrow> OrderedDict" where
  "move_to_end d k =
     (case map_of d k of
        None \<Rightarrow> d
      | Some v \<Rightarrow> AList.delete k d @ [(k, v)])"

text \<open>
  \<open>d[key] = value\<close> is \<open>AList.update\<close>: an existing key keeps its place and gets the
  new value, a new key is appended at the newest end.  \<open>del d[key]\<close> is
  \<open>AList.delete\<close>.  \<open>d.popitem(last=False)\<close> drops the oldest entry; it is only
  called right after an insertion, on a dictionary that is not empty.
\<close>

definition popitem_first :: "OrderedDict \<Rightarrow> OrderedDict" where
  "popitem_first d = tl d"

subsection \<open>class LRUCache\<close>

record LRUCache =
  capacity :: int
  cache :: OrderedDict

text \<open>
  \<open>__init__\<close> stores the capacity and an empty dictionary.  It has no \<open>raise\<close>;
  the result type still has room for a failure so that rejection at construction
  time can be talked about.
\<close>

definition LRUCache_init :: "int \<Rightarrow> py_error + LRUCache" where
  "LRUCache_init c = Inr \<lparr>capacity = c, cache = []\<rparr>"

text \<open>
  \<open>get\<close> returns the value read and the cache after the call; a miss is \<open>-1\<close>.
  \<open>key in self._cache\<close> is \<open>map_of\<close> finding a value, and the value read after
  \<open>move_to_end\<close> is the one found, since moving an entry keeps its value.
\<close>

definition LRUCache_get :: "LRUCache \<Rightarrow> Key \<Rightarrow> int \<times> LRUCache" where
  "LRUCache_get c k =
     (case map_of (cache c) k of
        Some v \<Rightarrow> (v, c\<lparr>cache := move_to_end (cache c) k\<rparr>)
      | None \<Rightarrow> (- 1, c))"

definition LRUCache_put :: "LRUCache \<Rightarrow> Key \<Rightarrow> int \<Rightarrow> LRUCache" where
  "LRUCache_put c k v =
     (let d1 = (if od_contains (cache c) k then move_to_end (cache c) k else cache c);
          d2 = AList.update k v d1
      in if int (length d2) > capacity c
         then c\<lparr>cache := popitem_first d2\<rparr>
         else c\<lparr>cache := d2\<rparr>)"

text \<open>
  \<open>invalidate_ranges_containing\<close> walks a snapshot of the keys and deletes the
  covering ones from the live dictionary, one at a time.
\<close>

definition LRUCache_invalidate_ranges_containing :: "LRUCache \<Rightarrow> int \<Rightarrow> LRUCache" where
  "LRUCache_invalidate_ranges_containing c index =
     c\<lparr>cache :=
        fold (\<lambda>key d. case key of (left, right) \<Rightarrow>
                if left \<le> index \<and> index \<le> right then AList.delete key d else d)
             (map fst (cache c)) (cache c)\<rparr>"

text \<open>
  A sequence of calls on one cache object, each run to completion before the next.
\<close>

datatype cache_call = Get Key | Put Key int | Invalidate int

fun cache_step :: "LRUCache \<Rightarrow> cache_call \<Rightarrow> LRUCache" where
  "cache_step c (Get k) = snd (LRUCache_get c k)"
| "cache_step c (Put k v) = LRUCache_put c k v"
| "cache_step c (Invalidate i) = LRUCache_invalidate_ranges_containing c i"

definition cache_run :: "LRUCache \<Rightarrow> cache_call list \<Rightarrow> LRUCache" where
  "cache_run c calls = foldl cache_step c calls"

subsection \<open>The four functions over the array\<close>

text \<open>
  \<open>Array = List[int]\<close>.  A slice \<open>xs[lo:hi]\<close> never raises: a negative bound counts
  from the end, and each bound is then clamped into \<open>0 .. len(xs)\<close>.
\<close>

type_synonym Array = "int list"

definition slice_bound :: "int \<Rightarrow> int \<Rightarrow> int" where
  "slice_bound n i = (if i < 0 then max (i + n) 0 else min i n)"

definition slice :: "'a list \<Rightarrow> int \<Rightarrow> int \<Rightarrow> 'a list" where
  "slice xs lo hi =
     (let n = int (length xs); a = slice_bound n lo; b = slice_bound n hi
      in take (nat (b - a)) (drop (nat a) xs))"

text \<open>
  \<open>xs[i] = v\<close>: a negative index counts from the end; an index outside
  \<open>-len(xs) .. len(xs) - 1\<close> raises \<open>IndexError\<close>.
\<close>

definition setitem :: "'a list \<Rightarrow> int \<Rightarrow> 'a \<Rightarrow> py_error + 'a list" where
  "setitem xs i v =
     (let n = int (length xs); j = (if i < 0 then i + n else i)
      in if 0 \<le> j \<and> j < n then Inr (xs[nat j := v]) else Inl IndexError)"

definition range_sum_no_cache :: "Array \<Rightarrow> int \<Rightarrow> int \<Rightarrow> int" where
  "range_sum_no_cache array left right = sum_list (slice array left (right + 1))"

definition update_no_cache :: "Array \<Rightarrow> int \<Rightarrow> int \<Rightarrow> py_error + Array" where
  "update_no_cache array index v = setitem array index v"

text \<open>\<open>range_sum_with_cache\<close> returns the sum and the cache after the call.\<close>

definition range_sum_with_cache :: "Array \<Rightarrow> int \<Rightarrow> int \<Rightarrow> LRUCache \<Rightarrow> int \<times> LRUCache" where
  "range_sum_with_cache array left right c =
     (let key = (left, right);
          (res, c1) = LRUCache_get c key
      in if res = - 1
         then (let res' = sum_list (slice array left (right + 1))
               in (res', LRUCache_put c1 key res'))
         else (res, c1))"

text \<open>
  \<open>update_with_cache\<close> writes the array first; when the write raises, the
  invalidation is not reached.
\<close>

definition update_with_cache ::
  "Array \<Rightarrow> int \<Rightarrow> int \<Rightarrow> LRUCache \<Rightarrow> py_error + (Array \<times> LRUCache)" where
  "update_with_cache array index v c =
     (case setitem array index v of
        Inl e \<Rightarrow> Inl e
      | Inr array' \<Rightarrow> Inr (array', LRUCache_invalidate_ranges_containing c index))"

text \<open>
  The cached branch of the query loop of \<open>_run_queries\<close>: a query is
  \<open>("Range", left, right)\<close> or \<open>("Update", idx, val)\<close>; the state is the array and
  the cache, and the sums returned are collected in call order.
\<close>

datatype query = Range int int | Update int int

fun run_query :: "Array \<times> LRUCache \<times> int list \<Rightarrow> query \<Rightarrow> py_error + (Array \<times> LRUCache \<times> int list)" where
  "run_query (array, c, out) (Range left right) =
     (case range_sum_with_cache array left right c of
        (res, c') \<Rightarrow> Inr (array, c', out @ [res]))"
| "run_query (array, c, out) (Update idx v) =
     (case update_with_cache array idx v c of
        Inl e \<Rightarrow> Inl e
      | Inr (array', c') \<Rightarrow> Inr (array', c', out))"

fun run_queries :: "Array \<times> LRUCache \<times> int list \<Rightarrow> query list \<Rightarrow> py_error + (Array \<times> LRUCache \<times> int list)" where
  "run_queries st [] = Inr st"
| "run_queries st (q # qs) =
     (case run_query st q of
        Inl e \<Rightarrow> Inl e
      | Inr st' \<Rightarrow> run_queries st' qs)"

text \<open>The uncached branch of the same loop, the reference the cache is compared with.\<close>

fun run_query_no_cache :: "Array \<times> int list \<Rightarrow> query \<Rightarrow> py_error + (Array \<times> int list)" where
  "run_query_no_cache (array, out) (Range left right) =
     Inr (array, out @ [range_sum_no_cache array left right])"
| "run_query_no_cache (array, out) (Update idx v) =
     (case update_no_cache array idx v of
        Inl e \<Rightarrow> Inl e
      | Inr array' \<Rightarrow> Inr (array', out))"

fun run_queries_no_cache :: "Array \<times> int list \<Rightarrow> query list \<Rightarrow> py_error + (Array \<times> int list)" where
  "run_queries_no_cache st [] = Inr st"
| "run_queries_no_cache st (q # qs) =
     (case run_query_no_cache st q of
        Inl e \<Rightarrow> Inl e
      | Inr st' \<Rightarrow> run_queries_no_cache st' qs)"

subsection \<open>Notions the properties of the cache are stated with\<close>

text \<open>Storing a list of entries, oldest first, one \<open>put\<close> each.\<close>

definition put_all :: "LRUCache \<Rightarrow> (Key \<times> int) list \<Rightarrow> LRUCache" where
  "put_all c kvs = foldl (\<lambda>c' (k, v). LRUCache_put c' k v) c kvs"

text \<open>
  The true sum of the array over the range \<open>left .. right\<close> inclusive: the sum of the
  elements at those of the positions \<open>left, \<dots>, right\<close> that the array has.  It is meant
  for \<open>0 \<le> left\<close>; for \<open>right < len(array)\<close> the positions are \<open>left .. right\<close>.
\<close>

definition true_range_sum :: "Array \<Rightarrow> int \<Rightarrow> int \<Rightarrow> int" where
  "true_range_sum array left right =
     sum_list (map (\<lambda>i. array ! nat i) [left..min right (int (length array) - 1)])"

text \<open>Every cached entry holds the true sum of its range over the array.\<close>

definition coherent :: "Array \<Rightarrow> LRUCache \<Rightarrow> bool" where
  "coherent array c =
     (\<forall>e \<in> set (cache c). snd e = true_range_sum array (fst (fst e)) (snd (fst e)))"

text \<open>
  A query whose numbers are not negative positions: neither bound \<open>left\<close>, \<open>right + 1\<close>
  of the slice of a range is negative, and the index of an update is not negative.
\<close>

fun positions_ok :: "query \<Rightarrow> bool" where
  "positions_ok (Range left right) = (0 \<le> left \<and> - 1 \<le> right)"
| "positions_ok (Update idx v) = (0 \<le> idx)"

text \<open>An update whose index lies before the end of an array of length \<open>n\<close>.\<close>

fun in_range :: "nat \<Rightarrow> query \<Rightarrow> bool" where
  "in_range n (Range left right) = True"
| "in_range n (Update idx v) = (idx < int n)"

text \<open>What a state of the cached query loop shows of the uncached one: array and sums.\<close>

definition drop_cache :: "Array \<times> LRUCache \<times> int list \<Rightarrow> Array \<times> int list" where
  "drop_cache st = (fst st, snd (snd st))"

definition covers :: "int \<Rightarrow> Key \<times> int \<Rightarrow> bool" where
  "covers p e = (fst (fst e) \<le> p \<and> p \<le> snd (fst e))"

text \<open>
  The representation invariant of a cache: keys pairwise distinct, as in every Python
  dictionary, and no more entries than the capacity.
\<close>

definition cache_inv :: "LRUCache \<Rightarrow> bool" where
  "cache_inv c = (distinct (map fst (cache c)) \<and> int (length (cache c)) \<le> capacity c)"

text \<open>No cached range has a negative slice bound.\<close>

definition keys_ok :: "LRUCache \<Rightarrow> bool" where
  "keys_ok c = (\<forall>e \<in> set (cache c). 0 \<le> fst (fst e) \<and> - 1 \<le> snd (fst e))"

text \<open>
  Recency of use.  A call uses a key when it is a \<open>get\<close> that finds the key or a \<open>put\<close>
  of the key.  \<open>last_use c calls k\<close> is the number, counting from 1, of the last call of
  the sequence \<open>calls\<close>, run from the state \<open>c\<close>, that uses \<open>k\<close>, and 0 when no call
  does; \<open>stamp\<close> computes it, walking the calls with the state before each call, the
  number of calls done and the last use seen so far.
\<close>

fun uses :: "LRUCache \<Rightarrow> cache_call \<Rightarrow> Key \<Rightarrow> bool" where
  "uses c (Get k') k = (k' = k \<and> od_contains (cache c) k)"
| "uses c (Put k' v) k = (k' = k)"
| "uses c (Invalidate i) k = False"

fun stamp :: "LRUCache \<Rightarrow> nat \<Rightarrow> nat \<Rightarrow> cache_call list \<Rightarrow> Key \<Rightarrow> nat" where
  "stamp c n t [] k = t"
| "stamp c n t (x # xs) k =
     stamp (cache_step c x) (Suc n) (if uses c x k then Suc n else t) xs k"

definition last_use :: "LRUCache \<Rightarrow> cache_call list \<Rightarrow> Key \<Rightarrow> nat" where
  "last_use c calls k = stamp c 0 0 calls k"

section \<open>Part 2: the splay tree used as a cache (part\_2.py)\<close>

subsection \<open>Nodes and the store\<close>

text \<open>
  A \<open>_Node\<close> object lives in the store at an address; a link to a node is an address,
  \<open>None\<close> is no link.  The field \<open>value\<close> is called \<open>val\<close> here.
\<close>

type_synonym ref = nat

record Node =
  key :: int
  val :: int
  left :: "ref option"
  right :: "ref option"
  parent :: "ref option"

text \<open>
  The state is the tree object, which has the one field \<open>root\<close>, together with the store
  its nodes live in and the next unused address.  Every address holds a node, so reading
  a field through a link is always defined, as it is in Python for a link that is not
  \<open>None\<close>.
\<close>

record SplayTree =
  root :: "ref option"
  heap :: "ref \<Rightarrow> Node"
  fresh :: ref

definition SplayTree_init :: SplayTree where
  "SplayTree_init =
     \<lparr>root = None,
      heap = (\<lambda>_. \<lparr>key = 0, val = 0, left = None, right = None, parent = None\<rparr>),
      fresh = 0\<rparr>"

text \<open>Field assignments \<open>a.left = v\<close>, \<open>a.right = v\<close>, \<open>a.parent = v\<close>, \<open>a.value = v\<close>.\<close>

definition set_left :: "ref \<Rightarrow> ref option \<Rightarrow> SplayTree \<Rightarrow> SplayTree" where
  "set_left a v t = t\<lparr>heap := (heap t)(a := (heap t a)\<lparr>left := v\<rparr>)\<rparr>"

definition set_right :: "ref \<Rightarrow> ref option \<Rightarrow> SplayTree \<Rightarrow> SplayTree" where
  "set_right a v t = t\<lparr>heap := (heap t)(a := (heap t a)\<lparr>right := v\<rparr>)\<rparr>"

definition set_parent :: "ref \<Rightarrow> ref option \<Rightarrow> SplayTree \<Rightarrow> SplayTree" where
  "set_parent a v t = t\<lparr>heap := (heap t)(a := (heap t a)\<lparr>parent := v\<rparr>)\<rparr>"

definition set_val :: "ref \<Rightarrow> int \<Rightarrow> SplayTree \<Rightarrow> SplayTree" where
  "set_val a v t = t\<lparr>heap := (heap t)(a := (heap t a)\<lparr>val := v\<rparr>)\<rparr>"

text \<open>
  \<open>_Node(key, value, parent=p)\<close>: a new object at the next unused address, with no
  children.
\<close>

definition new_node :: "int \<Rightarrow> int \<Rightarrow> ref option \<Rightarrow> SplayTree \<Rightarrow> ref \<times> SplayTree" where
  "new_node k v p t =
     (fresh t,
      t\<lparr>heap := (heap t)(fresh t := \<lparr>key = k, val = v, left = None, right = None, parent = p\<rparr>),
        fresh := Suc (fresh t)\<rparr>)"

text \<open>
  The operations below return \<open>None\<close> when the Python call does not return normally
  or the model does not follow it: a loop that runs forever, an attribute read on
  \<open>None\<close>, and a comparison of nodes that this model does not decide.

  \<open>a == b\<close> on links.  \<open>_Node\<close> is a dataclass, so two node objects are compared as the
  tuples \<open>(key, value, left, right, parent)\<close>, element by element in that order, an
  element that is the same object on both sides counting as equal.  An object compared
  with itself is therefore equal, a node and \<open>None\<close> are different, and two nodes whose
  keys or values differ are different.  Two distinct objects with equal key and value
  would be compared through their links; the model gives no answer there.
\<close>

definition node_eq :: "SplayTree \<Rightarrow> ref option \<Rightarrow> ref option \<Rightarrow> bool option" where
  "node_eq t a b =
     (case a of
        None \<Rightarrow> (case b of None \<Rightarrow> Some True | Some y \<Rightarrow> Some False)
      | Some x \<Rightarrow>
          (case b of
             None \<Rightarrow> Some False
           | Some y \<Rightarrow>
               if x = y then Some True
               else if key (heap t x) \<noteq> key (heap t y) then Some False
               else if val (heap t x) \<noteq> val (heap t y) then Some False
               else None))"

text \<open>\<open>a and b\<close> on comparisons: \<open>b\<close> is looked at only when \<open>a\<close> is true.\<close>

definition py_and :: "bool option \<Rightarrow> bool option \<Rightarrow> bool option" where
  "py_and a b = (case a of None \<Rightarrow> None | Some c \<Rightarrow> if c then b else Some False)"

subsection \<open>Rotations\<close>

text \<open>
  \<open>_right_rotate(x)\<close> and \<open>_left_rotate(x)\<close>, statement by statement; each read is from
  the store as the statements before it left it.
\<close>

definition right_rotate :: "SplayTree \<Rightarrow> ref \<Rightarrow> SplayTree option" where
  "right_rotate t x =
     (case left (heap t x) of
        None \<Rightarrow> Some t
      | Some y \<Rightarrow>
          (let t1 = set_left x (right (heap t y)) t;
               t2 = (case right (heap t1 y) of
                       None \<Rightarrow> t1
                     | Some b \<Rightarrow> set_parent b (Some x) t1);
               t3 = set_parent y (parent (heap t2 x)) t2
           in Option.bind
                (case parent (heap t3 x) of
                   None \<Rightarrow> Some (t3\<lparr>root := Some y\<rparr>)
                 | Some p \<Rightarrow>
                     Option.bind (node_eq t3 (Some x) (right (heap t3 p)))
                       (\<lambda>c. if c then Some (set_right p (Some y) t3)
                            else Some (set_left p (Some y) t3)))
                (\<lambda>t4. Some (set_parent x (Some y) (set_right y (Some x) t4)))))"

definition left_rotate :: "SplayTree \<Rightarrow> ref \<Rightarrow> SplayTree option" where
  "left_rotate t x =
     (case right (heap t x) of
        None \<Rightarrow> Some t
      | Some y \<Rightarrow>
          (let t1 = set_right x (left (heap t y)) t;
               t2 = (case left (heap t1 y) of
                       None \<Rightarrow> t1
                     | Some b \<Rightarrow> set_parent b (Some x) t1);
               t3 = set_parent y (parent (heap t2 x)) t2
           in Option.bind
                (case parent (heap t3 x) of
                   None \<Rightarrow> Some (t3\<lparr>root := Some y\<rparr>)
                 | Some p \<Rightarrow>
                     Option.bind (node_eq t3 (Some x) (left (heap t3 p)))
                       (\<lambda>c. if c then Some (set_left p (Some y) t3)
                            else Some (set_right p (Some y) t3)))
                (\<lambda>t4. Some (set_parent x (Some y) (set_left y (Some x) t4)))))"

text \<open>
  \<open>self._right_rotate(x.parent)\<close> and \<open>self._left_rotate(x.parent)\<close>: the argument is
  read from the store at the time of the call; on \<open>None\<close> the rotation would read a
  field of \<open>None\<close>.
\<close>

definition right_rotate_parent :: "SplayTree \<Rightarrow> ref \<Rightarrow> SplayTree option" where
  "right_rotate_parent t x = Option.bind (parent (heap t x)) (right_rotate t)"

definition left_rotate_parent :: "SplayTree \<Rightarrow> ref \<Rightarrow> SplayTree option" where
  "left_rotate_parent t x = Option.bind (parent (heap t x)) (left_rotate t)"

subsection \<open>Splaying\<close>

text \<open>
  One round of the loop of \<open>_splay\<close>, for a node \<open>x\<close> with parent \<open>p\<close>: the branch is
  chosen on the store as the round finds it, and the second rotation of a double step
  reads \<open>x.parent\<close> after the first.
\<close>

definition splay_step :: "SplayTree \<Rightarrow> ref \<Rightarrow> ref \<Rightarrow> SplayTree option" where
  "splay_step t x p =
     (case parent (heap t p) of
        None \<Rightarrow>
          Option.bind (node_eq t (left (heap t p)) (Some x))
            (\<lambda>c. if c then right_rotate t p else left_rotate t p)
      | Some g \<Rightarrow>
          Option.bind
            (py_and (node_eq t (left (heap t p)) (Some x)) (node_eq t (left (heap t g)) (Some p)))
            (\<lambda>c1. if c1 then Option.bind (right_rotate t g) (\<lambda>t1. right_rotate_parent t1 x)
              else Option.bind
                (py_and (node_eq t (right (heap t p)) (Some x)) (node_eq t (right (heap t g)) (Some p)))
                (\<lambda>c2. if c2 then Option.bind (left_rotate t g) (\<lambda>t1. left_rotate_parent t1 x)
                  else Option.bind
                    (py_and (node_eq t (left (heap t p)) (Some x)) (node_eq t (right (heap t g)) (Some p)))
                    (\<lambda>c3. if c3 then Option.bind (right_rotate t p) (\<lambda>t1. left_rotate_parent t1 x)
                      else Option.bind (left_rotate t p) (\<lambda>t1. right_rotate_parent t1 x)))))"

text \<open>\<open>_splay(x)\<close>: rounds while \<open>x\<close> has a parent.\<close>

partial_function (option) splay :: "SplayTree \<Rightarrow> ref \<Rightarrow> SplayTree option" where
  "splay t x =
     (case parent (heap t x) of
        None \<Rightarrow> Some t
      | Some p \<Rightarrow> Option.bind (splay_step t x p) (\<lambda>t'. splay t' x))"

subsection \<open>Lookup and insertion\<close>

text \<open>
  The loop of \<open>_find_node\<close>, from the node it stands at; the result is the node found,
  or \<open>None\<close>, and the state after the splay.
\<close>

partial_function (option) find_loop :: "SplayTree \<Rightarrow> int \<Rightarrow> ref option \<Rightarrow> (ref option \<times> SplayTree) option" where
  "find_loop t k node =
     (case node of
        None \<Rightarrow> Some (None, t)
      | Some n \<Rightarrow>
          if k = key (heap t n) then Option.bind (splay t n) (\<lambda>t'. Some (Some n, t'))
          else if k < key (heap t n) then
            (case left (heap t n) of
               Some l \<Rightarrow> find_loop t k (Some l)
             | None \<Rightarrow> Option.bind (splay t n) (\<lambda>t'. Some (None, t')))
          else
            (case right (heap t n) of
               Some r \<Rightarrow> find_loop t k (Some r)
             | None \<Rightarrow> Option.bind (splay t n) (\<lambda>t'. Some (None, t'))))"

definition find_node :: "SplayTree \<Rightarrow> int \<Rightarrow> (ref option \<times> SplayTree) option" where
  "find_node t k = find_loop t k (root t)"

text \<open>\<open>get(key)\<close>: the value of the node found, or \<open>None\<close>, and the state after the call.\<close>

definition SplayTree_get :: "SplayTree \<Rightarrow> int \<Rightarrow> (int option \<times> SplayTree) option" where
  "SplayTree_get t k =
     Option.bind (find_node t k)
       (\<lambda>(node, t'). Some (case node of None \<Rightarrow> None | Some n \<Rightarrow> Some (val (heap t' n)), t'))"

text \<open>The \<open>while True\<close> loop of \<open>insert\<close>, from the node it stands at.\<close>

partial_function (option) insert_loop :: "SplayTree \<Rightarrow> int \<Rightarrow> int \<Rightarrow> ref \<Rightarrow> SplayTree option" where
  "insert_loop t k v node =
     (if k = key (heap t node) then splay (set_val node v t) node
      else if k < key (heap t node) then
        (case left (heap t node) of
           Some l \<Rightarrow> insert_loop t k v l
         | None \<Rightarrow>
             (case new_node k v (Some node) t of
                (n, t1) \<Rightarrow>
                  (let t2 = set_left node (Some n) t1
                   in Option.bind (left (heap t2 node)) (splay t2))))
      else
        (case right (heap t node) of
           Some r \<Rightarrow> insert_loop t k v r
         | None \<Rightarrow>
             (case new_node k v (Some node) t of
                (n, t1) \<Rightarrow>
                  (let t2 = set_right node (Some n) t1
                   in Option.bind (right (heap t2 node)) (splay t2)))))"

definition SplayTree_insert :: "SplayTree \<Rightarrow> int \<Rightarrow> int \<Rightarrow> SplayTree option" where
  "SplayTree_insert t k v =
     (case root t of
        None \<Rightarrow> (case new_node k v None t of (n, t1) \<Rightarrow> Some (t1\<lparr>root := Some n\<rparr>))
      | Some r \<Rightarrow> insert_loop t k v r)"

subsection \<open>The two Fibonacci functions\<close>

text \<open>
  Both functions recurse to a depth that grows with \<open>n\<close>, and the interpreter bounds
  the depth of its stack: a call that would make the stack deeper than the recursion
  limit (\<open>sys.getrecursionlimit()\<close>, which \<open>main\<close> sets to 2000) raises
  \<open>RecursionError\<close>, which neither function catches.  So each model takes the limit and
  the depth of the stack at the call, and returns the error when a frame does not fit.
\<close>






declare splay.simps [code] find_loop.simps [code] insert_loop.simps [code]

subsection \<open>Notions the properties of the tree are stated with\<close>

text \<open>
  The shape of a tree of nodes: which node is where.  The in-order traversal lists the
  nodes left subtree first, then the node, then the right subtree.
\<close>

datatype shape = Tip | Bin shape ref shape

fun inorder :: "shape \<Rightarrow> ref list" where
  "inorder Tip = []"
| "inorder (Bin l a r) = inorder l @ a # inorder r"

text \<open>
  \<open>tree_at t par p s\<close>: in the store of \<open>t\<close>, the link \<open>p\<close> leads to a tree of shape
  \<open>s\<close> whose root has the parent link \<open>par\<close>, and below it every child's parent link
  points back to the node it hangs from.
\<close>

fun tree_at :: "SplayTree \<Rightarrow> ref option \<Rightarrow> ref option \<Rightarrow> shape \<Rightarrow> bool" where
  "tree_at t par p Tip = (p = None)"
| "tree_at t par p (Bin l a r) =
     (p = Some a \<and> parent (heap t a) = par \<and>
      tree_at t (Some a) (left (heap t a)) l \<and>
      tree_at t (Some a) (right (heap t a)) r)"

text \<open>The keys and the entries (key, value) of a shape, in order.\<close>

definition keys_of :: "SplayTree \<Rightarrow> shape \<Rightarrow> int list" where
  "keys_of t s = map (\<lambda>a. key (heap t a)) (inorder s)"

definition entries_of :: "SplayTree \<Rightarrow> shape \<Rightarrow> (int \<times> int) list" where
  "entries_of t s = map (\<lambda>a. (key (heap t a), val (heap t a))) (inorder s)"

text \<open>
  \<open>bst t s\<close>: the tree object \<open>t\<close> holds a binary search tree of shape \<open>s\<close>: the root
  link leads to it, its keys are strictly increasing in order, and its nodes are
  allocated.
\<close>

definition bst :: "SplayTree \<Rightarrow> shape \<Rightarrow> bool" where
  "bst t s =
     (tree_at t None (root t) s \<and> sorted_wrt (<) (keys_of t s) \<and>
      list_all (\<lambda>a. a < fresh t) (inorder s))"

text \<open>
  The way from a node up to the root, innermost step first: the node is the left child
  of \<open>a\<close>, whose right subtree is \<open>r\<close>, or the right child of \<open>a\<close>, whose left subtree
  is \<open>l\<close>.  \<open>plug\<close> puts a subtree back under such a way.
\<close>

datatype step = LeftOf ref shape | RightOf shape ref

fun step_node :: "step \<Rightarrow> ref" where
  "step_node (LeftOf a r) = a"
| "step_node (RightOf l a) = a"

fun plug :: "step list \<Rightarrow> shape \<Rightarrow> shape" where
  "plug [] s = s"
| "plug (LeftOf a r # fs) s = plug fs (Bin s a r)"
| "plug (RightOf l a # fs) s = plug fs (Bin l a s)"

fun upper :: "ref option \<Rightarrow> step list \<Rightarrow> ref option" where
  "upper par [] = par"
| "upper par (f # fs) = Some (step_node f)"

text \<open>
  \<open>way_at t par rt fs c\<close>: in the store of \<open>t\<close>, the steps \<open>fs\<close> lead from the link \<open>c\<close>
  up to the link \<open>rt\<close>, which hangs from \<open>par\<close>; the subtrees beside the way are in
  place.
\<close>

fun way_at :: "SplayTree \<Rightarrow> ref option \<Rightarrow> ref option \<Rightarrow> step list \<Rightarrow> ref option \<Rightarrow> bool" where
  "way_at t par rt [] c = (rt = c)"
| "way_at t par rt (LeftOf a r # fs) c =
     (left (heap t a) = c \<and> tree_at t (Some a) (right (heap t a)) r \<and>
      parent (heap t a) = upper par fs \<and> way_at t par rt fs (Some a))"
| "way_at t par rt (RightOf l a # fs) c =
     (right (heap t a) = c \<and> tree_at t (Some a) (left (heap t a)) l \<and>
      parent (heap t a) = upper par fs \<and> way_at t par rt fs (Some a))"

text \<open>The nodes left and right of the subtree a way leads to, in order.\<close>

fun before :: "step list \<Rightarrow> ref list" where
  "before [] = []"
| "before (LeftOf a r # fs) = before fs"
| "before (RightOf l a # fs) = before fs @ inorder l @ [a]"

fun after :: "step list \<Rightarrow> ref list" where
  "after [] = []"
| "after (LeftOf a r # fs) = a # inorder r @ after fs"
| "after (RightOf l a # fs) = after fs"

text \<open>
  The descent of a search for \<open>k\<close>: the node at which it stops, the node holding \<open>k\<close>
  or else the last node visited before a missing child.
\<close>

fun last_visited :: "SplayTree \<Rightarrow> int \<Rightarrow> shape \<Rightarrow> ref option" where
  "last_visited t k Tip = None"
| "last_visited t k (Bin l a r) =
     (if k = key (heap t a) then Some a
      else if k < key (heap t a) then (if l = Tip then Some a else last_visited t k l)
      else (if r = Tip then Some a else last_visited t k r))"

text \<open>A sequence of \<open>insert\<close> and \<open>get\<close> calls on one tree.\<close>

datatype tree_call = Insert int int | Lookup int

fun tree_step :: "SplayTree \<Rightarrow> tree_call \<Rightarrow> SplayTree option" where
  "tree_step t (Insert k v) = SplayTree_insert t k v"
| "tree_step t (Lookup k) = map_option snd (SplayTree_get t k)"

fun tree_run :: "SplayTree \<Rightarrow> tree_call list \<Rightarrow> SplayTree option" where
  "tree_run t [] = Some t"
| "tree_run t (c # cs) = Option.bind (tree_step t c) (\<lambda>t'. tree_run t' cs)"

text \<open>
  Two states agree on the links of a node; two states hold the same keys and values and
  have allocated the same addresses.
\<close>

definition same_links :: "SplayTree \<Rightarrow> SplayTree \<Rightarrow> ref \<Rightarrow> bool" where
  "same_links t t' a =
     (left (heap t' a) = left (heap t a) \<and> right (heap t' a) = right (heap t a) \<and>
      parent (heap t' a) = parent (heap t a))"

definition same_data :: "SplayTree \<Rightarrow> SplayTree \<Rightarrow> bool" where
  "same_data t t' =
     (fresh t' = fresh t \<and> (\<forall>a. key (heap t' a) = key (heap t a) \<and> val (heap t' a) = val (heap t a)))"

text \<open>
  What an \<open>insert\<close> of \<open>k\<close>, \<open>v\<close> into a tree of shape \<open>s\<close> leaves: the node \<open>x\<close> with
  key \<open>k\<close> and value \<open>v\<close> at the root and every other node with its key and value.  When
  \<open>k\<close> was in the tree, \<open>x\<close> is the node that held it, the nodes are the same in the
  same order, and nothing is allocated; otherwise \<open>x\<close> is one new node, which stands in
  order between the smaller and the larger keys.
\<close>

definition ins_post :: "SplayTree \<Rightarrow> int \<Rightarrow> int \<Rightarrow> shape \<Rightarrow> SplayTree \<Rightarrow> shape \<Rightarrow> ref \<Rightarrow> bool" where
  "ins_post t k v s t' s' x =
     (root t' = Some x \<and> key (heap t' x) = k \<and> val (heap t' x) = v \<and>
      (\<forall>a. a \<noteq> x \<longrightarrow> key (heap t' a) = key (heap t a) \<and> val (heap t' a) = val (heap t a)) \<and>
      (if k \<in> set (keys_of t s)
       then x \<in> set (inorder s) \<and> key (heap t x) = k \<and> inorder s' = inorder s \<and> fresh t' = fresh t
       else x = fresh t \<and> fresh t' = Suc (fresh t) \<and>
            (\<exists>xs ys. inorder s = xs @ ys \<and> inorder s' = xs @ x # ys \<and>
               (\<forall>a \<in> set xs. key (heap t a) < k) \<and> (\<forall>a \<in> set ys. k < key (heap t a)))))"





text \<open>
  An example state: the tree that \<open>insert(3, 30)\<close>, \<open>insert(8, 80)\<close>, \<open>insert(5, 50)\<close>
  build from the empty tree, with the node of key 5 at the root, and its shape.
\<close>

definition example_tree :: SplayTree where
  "example_tree =
     \<lparr>root = Some 2,
      heap = (heap SplayTree_init)
        (0 := \<lparr>key = 3, val = 30, left = None, right = None, parent = Some 2\<rparr>,
         1 := \<lparr>key = 8, val = 80, left = None, right = None, parent = Some 2\<rparr>,
         2 := \<lparr>key = 5, val = 50, left = Some 0, right = Some 1, parent = None\<rparr>),
      fresh = 3\<rparr>"

definition example_shape :: shape where
  "example_shape = Bin (Bin Tip 0 Tip) 2 (Bin Tip 1 Tip)"

section \<open>Properties of the recency cache\<close>

subsection \<open>The dictionary operations\<close>

lemma update_length:
  "length (AList.update k v d) = (if k \<in> fst ` set d then length d else Suc (length d))"
  by (induction d) auto

lemma update_new: "k \<notin> fst ` set d \<Longrightarrow> AList.update k v d = d @ [(k, v)]"
  by (induction d) auto

lemma update_set: "set (AList.update k v d) \<subseteq> insert (k, v) (set d)"
  by (induction d) auto

lemma length_delete_distinct:
  "distinct (map fst d) \<Longrightarrow> map_of d k = Some v \<Longrightarrow> Suc (length (AList.delete k d)) = length d"
  by (induction d) (auto simp: rev_image_eqI split: if_splits)

lemma move_to_end_keys:
  "distinct (map fst d) \<Longrightarrow> distinct (map fst (move_to_end d k))"
  using AList.delete_notin_dom[of k d]
  by (auto simp: move_to_end_def AList.distinct_delete  split: option.splits)

lemma move_to_end_length:
  "distinct (map fst d) \<Longrightarrow> length (move_to_end d k) = length d"
  by (auto simp: move_to_end_def length_delete_distinct split: option.splits)

lemma move_to_end_dom: "fst ` set (move_to_end d k) = fst ` set d"
  by (auto simp: move_to_end_def AList.delete_eq rev_image_eqI  split: option.splits dest: map_of_SomeD)

lemma move_to_end_set: "set (move_to_end d k) \<subseteq> set d"
  by (auto simp: move_to_end_def AList.delete_eq split: option.splits dest: map_of_SomeD)

subsection \<open>Invalidation is a filter\<close>

lemma fold_delete_filter:
  "fold (\<lambda>ky d. if P ky then AList.delete ky d else d) ks d
     = filter (\<lambda>e. \<not> (P (fst e) \<and> fst e \<in> set ks)) d"
proof (induction ks arbitrary: d)
  case Nil
  then show ?case by simp
next
  case (Cons k ks)
  show ?case
    by (auto simp: Cons.IH AList.delete_eq intro!: filter_cong)
qed

lemma invalidate_filter:
  "cache (LRUCache_invalidate_ranges_containing c p)
     = filter (\<lambda>e. \<not> (fst (fst e) \<le> p \<and> p \<le> snd (fst e))) (cache c)"
proof -
  have eq: "(\<lambda>ky d. case ky of (lo, hi) \<Rightarrow>
                if lo \<le> p \<and> p \<le> hi then AList.delete ky d else d)
        = (\<lambda>ky d. if (fst ky \<le> p \<and> p \<le> snd ky) then AList.delete ky d else d)"
    by (auto simp: fun_eq_iff split: prod.splits)
  show ?thesis
    unfolding LRUCache_invalidate_ranges_containing_def eq fold_delete_filter
    by (auto intro!: filter_cong)
qed

lemma invalidate_covers:
  "cache (LRUCache_invalidate_ranges_containing c p) = filter (\<lambda>e. \<not> covers p e) (cache c)"
  by (simp add: invalidate_filter covers_def)

lemma invalidate_capacity:
  "capacity (LRUCache_invalidate_ranges_containing c p) = capacity c"
  by (simp add: LRUCache_invalidate_ranges_containing_def)

text \<open>
  C7 (invalidation precision and frame).  For every cache and every position \<open>p\<close>,
  \<open>invalidate_ranges_containing(p)\<close> keeps exactly the entries whose key \<open>(l, r)\<close>
  has \<open>p < l\<close> or \<open>r < p\<close>, in the order they had: no disjoint range is removed, and
  the recency order of the survivors is unchanged.  The capacity is untouched.
\<close>

theorem invalidation_precision:
  "cache (LRUCache_invalidate_ranges_containing c p)
     = filter (\<lambda>e. p < fst (fst e) \<or> snd (fst e) < p) (cache c) \<and>
   capacity (LRUCache_invalidate_ranges_containing c p) = capacity c \<and>
   (\<forall>e \<in> set (cache c). p < fst (fst e) \<or> snd (fst e) < p \<longrightarrow>
        e \<in> set (cache (LRUCache_invalidate_ranges_containing c p)))"
proof -
  have "(\<lambda>e::Key \<times> int. \<not> (fst (fst e) \<le> p \<and> p \<le> snd (fst e)))
          = (\<lambda>e. p < fst (fst e) \<or> snd (fst e) < p)"
    by (auto simp: fun_eq_iff)
  then have "cache (LRUCache_invalidate_ranges_containing c p)
     = filter (\<lambda>e. p < fst (fst e) \<or> snd (fst e) < p) (cache c)"
    using invalidate_filter[of c p] by simp
  then show ?thesis by (simp add: invalidate_capacity)
qed

text \<open>
  The theorem at a cache of four entries and \<open>p = 2\<close>: the entry \<open>(4, 6)\<close> is in the
  cache and lies right of \<open>p\<close>; the two ranges off \<open>p\<close> survive in their order.
\<close>

theorem invalidation_precision_witness:
  "((4, 6), 1) \<in> set [((0, 2), 5), ((4, 6), 1), ((1, 3), 9), ((5, 9), 2 :: int)] \<and> (2 :: int) < 4 \<and>
   cache (LRUCache_invalidate_ranges_containing
            \<lparr>capacity = 4, cache = [((0, 2), 5), ((4, 6), 1), ((1, 3), 9), ((5, 9), 2)]\<rparr> 2)
     = [((4, 6), 1), ((5, 9), 2)]"
  using invalidation_precision[of "\<lparr>capacity = 4, cache = [((0, 2), 5), ((4, 6), 1), ((1, 3), 9), ((5, 9), 2)]\<rparr>" 2]
  by simp

subsection \<open>The capacity invariant\<close>

lemma get_inv: "cache_inv c \<Longrightarrow> cache_inv (snd (LRUCache_get c k))"
  by (auto simp: cache_inv_def LRUCache_get_def move_to_end_keys move_to_end_length split: option.splits)

lemma get_capacity: "capacity (snd (LRUCache_get c k)) = capacity c"
  by (auto simp: LRUCache_get_def split: option.splits)

lemma put_capacity: "capacity (LRUCache_put c k v) = capacity c"
  by (auto simp: LRUCache_put_def Let_def)

lemma invalidate_inv:
  assumes "cache_inv c"
  shows "cache_inv (LRUCache_invalidate_ranges_containing c p)"
proof -
  let ?d = "cache (LRUCache_invalidate_ranges_containing c p)"
  have "length ?d \<le> length (cache c)"
    unfolding invalidate_filter by (rule length_filter_le)
  moreover have "distinct (map fst ?d)"
    using assms unfolding invalidate_filter cache_inv_def by (simp add: distinct_map_filter)
  ultimately show ?thesis
    using assms unfolding cache_inv_def invalidate_capacity by linarith
qed

lemma put_inv: "cache_inv c \<Longrightarrow> 0 \<le> capacity c \<Longrightarrow> cache_inv (LRUCache_put c k v)"
  by (auto simp: cache_inv_def LRUCache_put_def Let_def od_contains_def popitem_first_def
      move_to_end_keys move_to_end_length AList.distinct_update update_length move_to_end_dom distinct_tl map_tl)

lemma cache_run_inv:
  "cache_inv c \<Longrightarrow> 0 \<le> capacity c \<Longrightarrow>
     cache_inv (cache_run c calls) \<and> capacity (cache_run c calls) = capacity c"
  unfolding cache_run_def
proof (induction calls arbitrary: c)
  case Nil
  then show ?case by simp
next
  case (Cons a calls)
  have "cache_inv (cache_step c a) \<and> capacity (cache_step c a) = capacity c"
    using Cons.prems
    by (cases a) (simp_all add: get_inv get_capacity put_inv put_capacity invalidate_inv invalidate_capacity)
  then show ?case using Cons.IH[of "cache_step c a"] Cons.prems by simp
qed

lemma put_evicts:
  assumes "cache_inv c" "1 \<le> capacity c" "\<not> od_contains (cache c) ky" "int (length (cache c)) = capacity c"
  shows "cache (LRUCache_put c ky v) = tl (cache c) @ [(ky, v)] \<and> cache c \<noteq> []"
proof -
  have ne: "cache c \<noteq> []" using assms(2,4) by auto
  then show ?thesis using assms
    by (auto simp: LRUCache_put_def Let_def od_contains_def update_new popitem_first_def)
qed

lemma put_keeps:
  assumes "cache_inv c" "od_contains (cache c) ky \<or> int (length (cache c)) < capacity c"
  shows "fst ` set (cache (LRUCache_put c ky v)) = insert ky (fst ` set (cache c))"
  using assms
  by (auto simp: LRUCache_put_def Let_def od_contains_def update_new popitem_first_def cache_inv_def
      AList.dom_update move_to_end_dom update_length move_to_end_length)

lemma update_last:
  "k \<notin> fst ` set xs \<Longrightarrow> AList.update k v (xs @ [(k, w)]) = xs @ [(k, v)]"
  by (induction xs) auto

lemma delete_absent: "k \<notin> fst ` set d \<Longrightarrow> AList.delete k d = d"
  by (induction d) auto

lemma delete_keys: "k \<notin> fst ` set (AList.delete k d)"
  by (induction d) auto

lemma delete_filter: "AList.delete k d = filter (\<lambda>e. fst e \<noteq> k) d"
  by (induction d) auto

lemma length_delete_present:
  "k \<in> fst ` set d \<Longrightarrow> length (AList.delete k d) < length d"
  by (induction d) (auto simp: le_imp_less_Suc AList.length_delete_le)

text \<open>
  What \<open>put\<close> leaves, in every state: the entries of the other keys in their order, then
  the entry put, and, when that is more than the capacity, all of it but the head.
\<close>

lemma put_cache:
  "cache (LRUCache_put c k v) =
     (if capacity c < int (length (AList.delete k (cache c) @ [(k, v)]))
      then tl (AList.delete k (cache c) @ [(k, v)]) else AList.delete k (cache c) @ [(k, v)])"
proof -
  let ?d1 = "if od_contains (cache c) k then move_to_end (cache c) k else cache c"
  have "AList.update k v ?d1 = AList.delete k (cache c) @ [(k, v)]"
  proof (cases "map_of (cache c) k")
    case None
    then have "k \<notin> fst ` set (cache c)" by (simp add: map_of_eq_None_iff)
    then show ?thesis by (simp add: od_contains_def update_new delete_absent)
  next
    case (Some w)
    then have "k \<in> fst ` set (cache c)" by (metis map_of_eq_None_iff option.distinct(1))
    then show ?thesis using Some by (simp add: od_contains_def move_to_end_def update_last delete_keys)
  qed
  then show ?thesis by (simp add: LRUCache_put_def Let_def popitem_first_def)
qed

lemma put_present:
  assumes "int (length (cache c)) \<le> capacity c" "map_of (cache c) k = Some w"
  shows "LRUCache_put c k v = c\<lparr>cache := AList.delete k (cache c) @ [(k, v)]\<rparr>"
proof -
  have "k \<in> fst ` set (cache c)" using assms(2) by (metis map_of_eq_None_iff option.distinct(1))
  then have "length (AList.delete k (cache c)) < length (cache c)" by (rule length_delete_present)
  then have "\<not> capacity c < int (length (AList.delete k (cache c) @ [(k, v)]))"
    using assms(1) by simp
  then have "cache (LRUCache_put c k v) = AList.delete k (cache c) @ [(k, v)]"
    using put_cache[of c k v] by simp
  moreover have "capacity (LRUCache_put c k v) = capacity c" by (rule put_capacity)
  ultimately show ?thesis by simp
qed

subsection \<open>The order of the entries is the order of their last use\<close>

lemma stamp_snoc:
  "stamp c n t (xs @ [x]) k =
     (if uses (foldl cache_step c xs) x k then Suc (n + length xs) else stamp c n t xs k)"
  by (induction xs arbitrary: c n t) simp_all

lemma stamp_le: "t \<le> n \<Longrightarrow> stamp c n t xs k \<le> n + length xs"
proof (induction xs arbitrary: c n t)
  case Nil
  then show ?case by simp
next
  case (Cons x xs)
  have "stamp (cache_step c x) (Suc n) (if uses c x k then Suc n else t) xs k \<le> Suc n + length xs"
    by (rule Cons.IH) (use Cons.prems in simp)
  then show ?case by simp
qed

lemma last_use_snoc:
  "last_use c (calls @ [x]) k =
     (if uses (cache_run c calls) x k then Suc (length calls) else last_use c calls k)"
  by (simp add: last_use_def cache_run_def stamp_snoc)

lemma last_use_le: "last_use c calls k \<le> length calls"
  using stamp_le[of 0 0 c calls k] by (simp add: last_use_def)

lemma sorted_wrt_snoc:
  "sorted_wrt P (xs @ [x]) \<longleftrightarrow> sorted_wrt P xs \<and> (\<forall>y \<in> set xs. P y x)"
  by (simp add: sorted_wrt_append)

lemma sorted_wrt_tl: "sorted_wrt P xs \<Longrightarrow> sorted_wrt P (tl xs)"
  by (cases xs) simp_all

text \<open>
  In every state reached from an empty cache, the entries stand in the order of their
  last use, the least recently used first, and each has been used.
\<close>

lemma recency_order:
  assumes "cache c0 = []"
  shows "sorted_wrt (<) (map (\<lambda>e. last_use c0 calls (fst e)) (cache (cache_run c0 calls))) \<and>
         (\<forall>e \<in> set (cache (cache_run c0 calls)). 0 < last_use c0 calls (fst e))"
proof (induction calls rule: rev_induct)
  case Nil
  then show ?case using assms by (simp add: cache_run_def)
next
  case (snoc x calls)
  let ?c = "cache_run c0 calls"
  let ?t = "\<lambda>e. last_use c0 calls (fst e)"
  let ?t' = "\<lambda>e. last_use c0 (calls @ [x]) (fst e)"
  have run: "cache_run c0 (calls @ [x]) = cache_step ?c x" by (simp add: cache_run_def)
  have srt: "sorted_wrt (<) (map ?t (cache ?c))" and pos: "\<forall>e \<in> set (cache ?c). 0 < ?t e"
    using snoc.IH by simp_all
  have le: "?t e \<le> length calls" for e by (rule last_use_le)
  have moved: "sorted_wrt (<) (map ?t' (AList.delete k (cache ?c) @ [(k, v)])) \<and>
               (\<forall>e \<in> set (AList.delete k (cache ?c) @ [(k, v)]). 0 < ?t' e)"
    if u: "\<And>k'. uses ?c x k' = (k' = k)" for k v
  proof -
    have same: "?t' e = ?t e" if "e \<in> set (AList.delete k (cache ?c))" for e
    proof -
      have "fst e \<noteq> k" using that by (auto simp: delete_filter)
      then show ?thesis by (simp add: last_use_snoc u)
    qed
    have new: "?t' (k, v) = Suc (length calls)" by (simp add: last_use_snoc u)
    have eq: "map ?t' (AList.delete k (cache ?c)) = map ?t (AList.delete k (cache ?c))"
      by (rule map_cong[OF refl]) (rule same)
    have "sorted_wrt (<) (map ?t (AList.delete k (cache ?c)))"
      unfolding delete_filter sorted_wrt_map by (rule sorted_wrt_filter) (use srt in \<open>simp add: sorted_wrt_map\<close>)
    then have "sorted_wrt (<) (map ?t' (AList.delete k (cache ?c)))"
      unfolding eq .
    moreover have "\<forall>e \<in> set (AList.delete k (cache ?c)). ?t' e < ?t' (k, v)"
      using same new by (simp add: less_Suc_eq_le last_use_le)
    moreover have "\<forall>e \<in> set (AList.delete k (cache ?c)). 0 < ?t' e"
      using same pos by (auto simp: delete_filter)
    ultimately show ?thesis using new by (simp add: sorted_wrt_append)
  qed
  have kept: "sorted_wrt (<) (map ?t' (filter Q (cache ?c))) \<and>
              (\<forall>e \<in> set (filter Q (cache ?c)). 0 < ?t' e)"
    if u: "\<And>k'. k' \<in> fst ` set (filter Q (cache ?c)) \<Longrightarrow> \<not> uses ?c x k'" for Q
  proof -
    have same: "?t' e = ?t e" if "e \<in> set (filter Q (cache ?c))" for e
      using u[of "fst e"] that by (simp add: last_use_snoc)
    have eq: "map ?t' (filter Q (cache ?c)) = map ?t (filter Q (cache ?c))"
      by (rule map_cong[OF refl]) (rule same)
    have "sorted_wrt (<) (map ?t (filter Q (cache ?c)))"
      unfolding sorted_wrt_map by (rule sorted_wrt_filter) (use srt in \<open>simp add: sorted_wrt_map\<close>)
    then have "sorted_wrt (<) (map ?t' (filter Q (cache ?c)))"
      unfolding eq .
    moreover have "\<forall>e \<in> set (filter Q (cache ?c)). 0 < ?t' e"
      using same pos by auto
    ultimately show ?thesis by simp
  qed
  show ?case
  proof (cases x)
    case (Get k)
    show ?thesis
    proof (cases "map_of (cache ?c) k")
      case None
      then have "k \<notin> fst ` set (cache ?c)" by (simp add: map_of_eq_None_iff)
      then have "sorted_wrt (<) (map ?t' (filter (\<lambda>e. True) (cache ?c))) \<and>
              (\<forall>e \<in> set (filter (\<lambda>e. True) (cache ?c)). 0 < ?t' e)"
        by (intro kept) (auto simp: Get od_contains_def)
      then show ?thesis unfolding run using None by (simp add: Get LRUCache_get_def)
    next
      case (Some w)
      then have "k \<in> fst ` set (cache ?c)" by (metis map_of_eq_None_iff option.distinct(1))
      then have "sorted_wrt (<) (map ?t' (AList.delete k (cache ?c) @ [(k, w)])) \<and>
               (\<forall>e \<in> set (AList.delete k (cache ?c) @ [(k, w)]). 0 < ?t' e)"
        by (intro moved) (auto simp: Get od_contains_def)
      then show ?thesis
        unfolding run using Some by (simp add: Get LRUCache_get_def move_to_end_def)
    qed
  next
    case (Put k v)
    have "sorted_wrt (<) (map ?t' (AList.delete k (cache ?c) @ [(k, v)])) \<and>
               (\<forall>e \<in> set (AList.delete k (cache ?c) @ [(k, v)]). 0 < ?t' e)"
      by (intro moved) (auto simp: Put)
    then have m: "sorted_wrt (<) (map ?t' (AList.delete k (cache ?c) @ [(k, v)]))"
      "\<forall>e \<in> set (AList.delete k (cache ?c) @ [(k, v)]). 0 < ?t' e" by blast+
    have t: "sorted_wrt (<) (map ?t' (tl (AList.delete k (cache ?c) @ [(k, v)])))"
      using sorted_wrt_tl[OF m(1)] by (simp add: map_tl)
    have p: "\<forall>e \<in> set (tl (AList.delete k (cache ?c) @ [(k, v)])). 0 < ?t' e"
      using m(2) list.set_sel(2)[of "AList.delete k (cache ?c) @ [(k, v)]"] by blast
    have "cache (cache_run c0 (calls @ [x])) = tl (AList.delete k (cache ?c) @ [(k, v)]) \<or>
          cache (cache_run c0 (calls @ [x])) = AList.delete k (cache ?c) @ [(k, v)]"
      unfolding run unfolding Put cache_step.simps put_cache by simp
    then show ?thesis
    proof
      assume e: "cache (cache_run c0 (calls @ [x])) = tl (AList.delete k (cache ?c) @ [(k, v)])"
      show ?thesis unfolding e using t p by blast
    next
      assume e: "cache (cache_run c0 (calls @ [x])) = AList.delete k (cache ?c) @ [(k, v)]"
      show ?thesis unfolding e using m by blast
    qed
  next
    case (Invalidate i)
    have "sorted_wrt (<) (map ?t' (filter (\<lambda>e. \<not> covers i e) (cache ?c))) \<and>
              (\<forall>e \<in> set (filter (\<lambda>e. \<not> covers i e) (cache ?c)). 0 < ?t' e)"
      by (intro kept) (simp add: Invalidate)
    then show ?thesis
      unfolding run by (simp add: Invalidate invalidate_covers)
  qed
qed

text \<open>
  C2 (capacity invariant with single eviction).  Let \<open>c\<close> be the state of a cache
  constructed with capacity \<open>k \<ge> 1\<close> after any sequence of \<open>get\<close>, \<open>put\<close> and
  \<open>invalidate_ranges_containing\<close> calls (so also after every prefix of it).  Then \<open>c\<close>
  holds at most \<open>k\<close> entries, with distinct keys, and they stand in the order of their
  last use, a use of a key being a \<open>get\<close> that finds it or a \<open>put\<close> of it: the longer ago
  the last use, the nearer the head.  A \<open>put\<close> of a new key into the full cache, the one
  case where the insert makes \<open>k + 1\<close> entries, leaves the old entries but the head,
  followed by the new entry: exactly one entry is removed, after the insert, and it is the
  least recently used one, the last use of every other entry being later than its last
  use.  Every other \<open>put\<close> removes no key.  In each case the cache holds at most \<open>k\<close>
  entries after the \<open>put\<close>, and not fewer than before it.
\<close>

theorem capacity_invariant:
  assumes "1 \<le> k" and "LRUCache_init k = Inr c0" and "c = cache_run c0 calls"
  shows "int (length (cache c)) \<le> k \<and> capacity c = k \<and> distinct (map fst (cache c)) \<and>
         sorted_wrt (<) (map (\<lambda>e. last_use c0 calls (fst e)) (cache c)) \<and>
         (\<forall>e \<in> set (cache c). 0 < last_use c0 calls (fst e)) \<and>
         (\<not> od_contains (cache c) ky \<and> int (length (cache c)) = k \<longrightarrow>
            cache c \<noteq> [] \<and> cache (LRUCache_put c ky v) = tl (cache c) @ [(ky, v)] \<and>
            (\<forall>e \<in> set (tl (cache c)).
               last_use c0 calls (fst (hd (cache c))) < last_use c0 calls (fst e))) \<and>
         (od_contains (cache c) ky \<or> int (length (cache c)) < k \<longrightarrow>
            fst ` set (cache (LRUCache_put c ky v)) = insert ky (fst ` set (cache c))) \<and>
         int (length (cache (LRUCache_put c ky v))) \<le> k \<and>
         length (cache c) \<le> length (cache (LRUCache_put c ky v))"
proof -
  have c0: "c0 = \<lparr>capacity = k, cache = []\<rparr>"
    using assms(2) by (simp add: LRUCache_init_def)
  have "cache_inv c0" "0 \<le> capacity c0"
    using assms(1) by (simp_all add: c0 cache_inv_def)
  from cache_run_inv[OF this, of calls]
  have inv: "cache_inv c" and cap: "capacity c = k"
    by (simp_all add: assms(3) c0)
  have len: "int (length (cache c)) \<le> k" and dist: "distinct (map fst (cache c))"
    using inv cap by (simp_all add: cache_inv_def)
  have "cache c0 = []" by (simp add: c0)
  from recency_order[OF this, of calls]
  have srt: "sorted_wrt (<) (map (\<lambda>e. last_use c0 calls (fst e)) (cache c))"
    and pos: "\<forall>e \<in> set (cache c). 0 < last_use c0 calls (fst e)"
    by (simp_all add: assms(3))
  have lru: "\<forall>e \<in> set (tl (cache c)).
               last_use c0 calls (fst (hd (cache c))) < last_use c0 calls (fst e)"
    if "cache c \<noteq> []"
    using srt that by (cases "cache c") auto
  have a: "\<not> od_contains (cache c) ky \<and> int (length (cache c)) = k \<longrightarrow>
            cache c \<noteq> [] \<and> cache (LRUCache_put c ky v) = tl (cache c) @ [(ky, v)] \<and>
            (\<forall>e \<in> set (tl (cache c)).
               last_use c0 calls (fst (hd (cache c))) < last_use c0 calls (fst e))"
    using put_evicts[OF inv, of ky v] assms(1) cap lru by simp
  have b: "od_contains (cache c) ky \<or> int (length (cache c)) < k \<longrightarrow>
            fst ` set (cache (LRUCache_put c ky v)) = insert ky (fst ` set (cache c))"
    using put_keeps[OF inv, of ky v] cap by simp
  have "cache_inv (LRUCache_put c ky v)"
    using put_inv[OF inv] cap assms(1) by simp
  then have d: "int (length (cache (LRUCache_put c ky v))) \<le> k"
    by (simp add: cache_inv_def put_capacity cap)
  have e: "length (cache c) \<le> length (cache (LRUCache_put c ky v))"
  proof (cases "\<not> od_contains (cache c) ky \<and> int (length (cache c)) = k")
    case True
    with a show ?thesis by (cases "cache c") auto
  next
    case False
    then show ?thesis using len dist cap
      by (auto simp: LRUCache_put_def Let_def od_contains_def update_length move_to_end_length move_to_end_dom)
  qed
  show ?thesis using len cap dist srt pos a b d e by blast
qed

text \<open>
  The theorem at capacity 2 after \<open>put((0,2),5)\<close>, \<open>put((1,3),9)\<close>, \<open>get((0,2))\<close>,
  \<open>put((0,2),6)\<close>: the cache is full, and \<open>(1,3)\<close>, last used by the second call, stands
  before \<open>(0,2)\<close>, last used by the fourth, although \<open>(0,2)\<close> was inserted first.  A
  \<open>put\<close> of the new key \<open>(4,6)\<close> evicts \<open>(1,3)\<close>, and a \<open>put\<close> of the present key
  \<open>(1,3)\<close> removes nothing.
\<close>

theorem capacity_invariant_witness:
  "(1::int) \<le> 2 \<and> LRUCache_init 2 = Inr \<lparr>capacity = 2, cache = []\<rparr> \<and>
   cache_run \<lparr>capacity = 2, cache = []\<rparr> [Put (0, 2) 5, Put (1, 3) 9, Get (0, 2), Put (0, 2) 6]
     = \<lparr>capacity = 2, cache = [((1, 3), 9), ((0, 2), 6)]\<rparr> \<and>
   last_use \<lparr>capacity = 2, cache = []\<rparr>
     [Put (0, 2) 5, Put (1, 3) 9, Get (0, 2), Put (0, 2) 6] (1, 3) = 2 \<and>
   last_use \<lparr>capacity = 2, cache = []\<rparr>
     [Put (0, 2) 5, Put (1, 3) 9, Get (0, 2), Put (0, 2) 6] (0, 2) = 4 \<and>
   \<not> od_contains [((1, 3), 9), ((0, 2), 6)] (4, 6) \<and>
   int (length [((1, 3), 9), ((0, 2), 6 :: int)]) = 2 \<and>
   cache (LRUCache_put \<lparr>capacity = 2, cache = [((1, 3), 9), ((0, 2), 6)]\<rparr> (4, 6) 1)
     = [((0, 2), 6), ((4, 6), 1)] \<and>
   od_contains [((1, 3), 9), ((0, 2), 6)] (1, 3) \<and>
   fst ` set (cache (LRUCache_put \<lparr>capacity = 2, cache = [((1, 3), 9), ((0, 2), 6)]\<rparr> (1, 3) 7))
     = {(1, 3), (0, 2)}"
proof -
  let ?start = "\<lparr>capacity = 2, cache = []\<rparr>"
  let ?full = "\<lparr>capacity = 2, cache = [((1, 3), 9), ((0, 2), 6)]\<rparr>"
  let ?calls = "[Put (0, 2) 5, Put (1, 3) 9, Get (0, 2), Put (0, 2) 6]"
  have h1: "(1::int) \<le> 2" by simp
  have h2: "LRUCache_init 2 = Inr ?start" by (simp add: LRUCache_init_def)
  have h3: "?full = cache_run ?start ?calls"
    by (simp add: cache_run_def LRUCache_put_def LRUCache_get_def od_contains_def move_to_end_def Let_def)
  have t: "last_use ?start ?calls (1, 3) = 2" "last_use ?start ?calls (0, 2) = 4"
    by (simp_all add: last_use_def LRUCache_put_def LRUCache_get_def od_contains_def
        move_to_end_def Let_def)
  have a: "\<not> od_contains [((1, 3), 9), ((0, 2), 6)] (4, 6)" "od_contains [((1, 3), 9), ((0, 2), 6)] (1, 3)"
    by (simp_all add: od_contains_def)
  from capacity_invariant[OF h1 h2 h3, of "(4, 6)" 1] a
  have p: "cache (LRUCache_put ?full (4, 6) 1) = [((0, 2), 6), ((4, 6), 1)]" by simp
  from capacity_invariant[OF h1 h2 h3, of "(1, 3)" 7] a
  have q: "fst ` set (cache (LRUCache_put ?full (1, 3) 7)) = {(1, 3), (0, 2)}" by simp
  show ?thesis using h1 h2 h3[symmetric] t a p q by simp
qed

subsection \<open>Eviction order\<close>

lemma put_new_room:
  assumes "k \<notin> fst ` set d" "int (length d) < cap"
  shows "LRUCache_put \<lparr>capacity = cap, cache = d\<rparr> k v = \<lparr>capacity = cap, cache = d @ [(k, v)]\<rparr>"
  using assms by (simp add: LRUCache_put_def od_contains_def update_new Let_def)

lemma put_all_fill:
  "distinct (map fst kvs) \<Longrightarrow> int (length kvs) \<le> cap \<Longrightarrow>
     put_all \<lparr>capacity = cap, cache = []\<rparr> kvs = \<lparr>capacity = cap, cache = kvs\<rparr>"
proof (induction kvs rule: rev_induct)
  case Nil
  then show ?case by (simp add: put_all_def)
next
  case (snoc e kvs)
  then have "put_all \<lparr>capacity = cap, cache = []\<rparr> kvs = \<lparr>capacity = cap, cache = kvs\<rparr>"
    by simp
  moreover have "fst e \<notin> fst ` set kvs" "int (length kvs) < cap"
    using snoc.prems by auto
  ultimately show ?case
    using put_new_room[of "fst e" kvs cap "snd e"]
    by (simp add: put_all_def case_prod_beta)
qed

lemma put_all_overflow:
  assumes "1 \<le> cap" "int (length kvs) = cap + 1" "distinct (map fst kvs)"
  shows "put_all \<lparr>capacity = cap, cache = []\<rparr> kvs = \<lparr>capacity = cap, cache = tl kvs\<rparr>"
proof -
  from assms obtain ys e where kvs: "kvs = ys @ [e]"
    by (cases kvs rule: rev_cases) auto
  have ys: "distinct (map fst ys)" "int (length ys) = cap" "fst e \<notin> fst ` set ys" "ys \<noteq> []"
    using assms by (auto simp: kvs)
  have "put_all \<lparr>capacity = cap, cache = []\<rparr> ys = \<lparr>capacity = cap, cache = ys\<rparr>"
    using put_all_fill[of ys cap] ys by simp
  then have "put_all \<lparr>capacity = cap, cache = []\<rparr> kvs
      = LRUCache_put \<lparr>capacity = cap, cache = ys\<rparr> (fst e) (snd e)"
    by (simp add: put_all_def kvs case_prod_beta)
  also have "\<dots> = \<lparr>capacity = cap, cache = tl (ys @ [e])\<rparr>"
    using ys by (simp add: LRUCache_put_def od_contains_def update_new Let_def popitem_first_def)
  finally show ?thesis by (simp add: kvs)
qed

text \<open>
  C8 (least-recently-used eviction, \<open>get\<close> refreshing recency).  For every capacity
  \<open>k \<ge> 1\<close>, putting \<open>k + 1\<close> entries with pairwise distinct keys, in order, into a fresh
  cache leaves exactly the last \<open>k\<close> of them, in order: the first key is absent (a
  \<open>get\<close> on it misses) and each of the other \<open>k\<close> keys is present with its value.  In
  the run \<open>put((0,2),5)\<close>, \<open>put((1,3),9)\<close>, \<open>get((0,2))\<close>, \<open>put((4,6),1)\<close> at capacity 2
  the \<open>get\<close> makes \<open>(0,2)\<close> the newest entry, the last \<open>put\<close> evicts \<open>(1,3)\<close>, and
  \<open>get((1,3))\<close> then misses.
\<close>

theorem lru_eviction_order:
  "(1 \<le> k \<and> int (length kvs) = k + 1 \<and> distinct (map fst kvs) \<and> LRUCache_init k = Inr c0 \<longrightarrow>
      cache (put_all c0 kvs) = tl kvs \<and>
      \<not> od_contains (cache (put_all c0 kvs)) (fst (hd kvs)) \<and>
      fst (LRUCache_get (put_all c0 kvs) (fst (hd kvs))) = - 1 \<and>
      length (tl kvs) = nat k \<and>
      (\<forall>e \<in> set (tl kvs). map_of (cache (put_all c0 kvs)) (fst e) = Some (snd e))) \<and>
   cache_run \<lparr>capacity = 2, cache = []\<rparr> [Put (0, 2) 5, Put (1, 3) 9, Get (0, 2)]
     = \<lparr>capacity = 2, cache = [((1, 3), 9), ((0, 2), 5)]\<rparr> \<and>
   cache_run \<lparr>capacity = 2, cache = []\<rparr> [Put (0, 2) 5, Put (1, 3) 9, Get (0, 2), Put (4, 6) 1]
     = \<lparr>capacity = 2, cache = [((0, 2), 5), ((4, 6), 1)]\<rparr> \<and>
   LRUCache_get \<lparr>capacity = 2, cache = [((0, 2), 5), ((4, 6), 1)]\<rparr> (1, 3)
     = (- 1, \<lparr>capacity = 2, cache = [((0, 2), 5), ((4, 6), 1)]\<rparr>)"
proof -
  have gen: "cache (put_all c0 kvs) = tl kvs \<and>
      \<not> od_contains (cache (put_all c0 kvs)) (fst (hd kvs)) \<and>
      fst (LRUCache_get (put_all c0 kvs) (fst (hd kvs))) = - 1 \<and>
      length (tl kvs) = nat k \<and>
      (\<forall>e \<in> set (tl kvs). map_of (cache (put_all c0 kvs)) (fst e) = Some (snd e))"
    if h: "1 \<le> k" "int (length kvs) = k + 1" "distinct (map fst kvs)" "LRUCache_init k = Inr c0"
  proof -
    have c0: "c0 = \<lparr>capacity = k, cache = []\<rparr>" using h(4) by (simp add: LRUCache_init_def)
    have c: "cache (put_all c0 kvs) = tl kvs"
      using put_all_overflow[OF h(1-3)] by (simp add: c0)
    obtain e es where kvs: "kvs = e # es" using h(1,2) by (cases kvs) auto
    have absent: "fst e \<notin> fst ` set es" and d: "distinct (map fst es)"
      using h(3) by (auto simp: kvs)
    then have m: "map_of es (fst e) = None" by (simp add: map_of_eq_None_iff)
    have "\<forall>x \<in> set es. map_of es (fst x) = Some (snd x)"
      using d by auto
    then show ?thesis
      using absent m h(2) c by (simp add: kvs od_contains_def LRUCache_get_def)
  qed
  have a: "cache_run \<lparr>capacity = 2, cache = []\<rparr> [Put (0, 2) 5, Put (1, 3) 9, Get (0, 2)]
     = \<lparr>capacity = 2, cache = [((1, 3), 9), ((0, 2), 5)]\<rparr>"
    by (simp add: cache_run_def LRUCache_put_def LRUCache_get_def od_contains_def
        move_to_end_def popitem_first_def Let_def)
  have b: "cache_run \<lparr>capacity = 2, cache = []\<rparr> [Put (0, 2) 5, Put (1, 3) 9, Get (0, 2), Put (4, 6) 1]
     = \<lparr>capacity = 2, cache = [((0, 2), 5), ((4, 6), 1)]\<rparr>"
    by (simp add: cache_run_def LRUCache_put_def LRUCache_get_def od_contains_def
        move_to_end_def popitem_first_def Let_def)
  have c: "LRUCache_get \<lparr>capacity = 2, cache = [((0, 2), 5), ((4, 6), 1)]\<rparr> (1, 3)
     = (- 1, \<lparr>capacity = 2, cache = [((0, 2), 5), ((4, 6), 1)]\<rparr>)"
    by (simp add: LRUCache_get_def)
  show ?thesis using gen a b c by blast
qed

text \<open>
  The general part at capacity 2 with the keys \<open>(0,2)\<close>, \<open>(1,3)\<close>, \<open>(4,6)\<close>.
\<close>

theorem lru_eviction_order_witness:
  "(1 :: int) \<le> 2 \<and> int (length [((0, 2), 5 :: int), ((1, 3), 9), ((4, 6), 1)]) = 2 + 1 \<and>
   distinct (map fst [((0 :: int, 2 :: int), 5 :: int), ((1, 3), 9), ((4, 6), 1)]) \<and>
   LRUCache_init 2 = Inr \<lparr>capacity = 2, cache = []\<rparr> \<and>
   cache (put_all \<lparr>capacity = 2, cache = []\<rparr> [((0, 2), 5), ((1, 3), 9), ((4, 6), 1)])
     = [((1, 3), 9), ((4, 6), 1)] \<and>
   fst (LRUCache_get (put_all \<lparr>capacity = 2, cache = []\<rparr> [((0, 2), 5), ((1, 3), 9), ((4, 6), 1)]) (0, 2)) = - 1"
proof -
  have h: "(1 :: int) \<le> 2" "int (length [((0, 2), 5 :: int), ((1, 3), 9), ((4, 6), 1)]) = 2 + 1"
    "distinct (map fst [((0 :: int, 2 :: int), 5 :: int), ((1, 3), 9), ((4, 6), 1)])"
    "LRUCache_init 2 = Inr \<lparr>capacity = 2, cache = []\<rparr>"
    by (simp_all add: LRUCache_init_def)
  from lru_eviction_order[of 2 "[((0, 2), 5), ((1, 3), 9), ((4, 6), 1)]" "\<lparr>capacity = 2, cache = []\<rparr>"] h
  have "cache (put_all \<lparr>capacity = 2, cache = []\<rparr> [((0, 2), 5), ((1, 3), 9), ((4, 6), 1)])
     = [((1, 3), 9), ((4, 6), 1)]"
   "fst (LRUCache_get (put_all \<lparr>capacity = 2, cache = []\<rparr> [((0, 2), 5), ((1, 3), 9), ((4, 6), 1)]) (0, 2)) = - 1"
    by simp_all
  with h show ?thesis by simp
qed

subsection \<open>The miss sentinel\<close>

text \<open>
  C9 (a miss is the integer \<open>-1\<close>).  A \<open>get\<close> on an absent key returns \<open>-1\<close> and
  leaves the cache as it was; a \<open>get\<close> on a present key whose stored value is \<open>-1\<close>
  returns \<open>-1\<close> as well, so \<open>get\<close> returns \<open>-1\<close> exactly for an absent key or a
  stored \<open>-1\<close>.  A \<open>put\<close> of a present key, in a cache within its capacity, replaces the
  value: it leaves the other entries in their order, followed by the key with the value
  put.  So when the entry of \<open>(left, right)\<close> holds \<open>-1\<close>, \<open>range_sum_with_cache\<close> takes
  it for a miss: it returns the recomputed sum, the one \<open>range_sum_no_cache\<close> returns, and
  stores it again, after which the entry of \<open>(left, right)\<close> is the newest and holds that
  sum, the other entries being as they were.
\<close>

theorem miss_sentinel:
  "(map_of (cache c) k = None \<longrightarrow> LRUCache_get c k = (- 1, c)) \<and>
   (map_of (cache c) k = Some (- 1) \<longrightarrow> fst (LRUCache_get c k) = - 1) \<and>
   (fst (LRUCache_get c k) = - 1 \<longleftrightarrow> map_of (cache c) k = None \<or> map_of (cache c) k = Some (- 1)) \<and>
   (int (length (cache c)) \<le> capacity c \<and> map_of (cache c) k = Some w \<longrightarrow>
      LRUCache_put c k v = c\<lparr>cache := AList.delete k (cache c) @ [(k, v)]\<rparr> \<and>
      map_of (cache (LRUCache_put c k v)) k = Some v) \<and>
   (map_of (cache c) (lo, hi) = Some (- 1) \<longrightarrow>
      range_sum_with_cache array lo hi c
        = (range_sum_no_cache array lo hi,
           LRUCache_put (snd (LRUCache_get c (lo, hi))) (lo, hi)
             (range_sum_no_cache array lo hi))) \<and>
   (int (length (cache c)) \<le> capacity c \<and> map_of (cache c) (lo, hi) = Some (- 1) \<longrightarrow>
      range_sum_with_cache array lo hi c
        = (range_sum_no_cache array lo hi,
           c\<lparr>cache := AList.delete (lo, hi) (cache c)
                        @ [((lo, hi), range_sum_no_cache array lo hi)]\<rparr>) \<and>
      map_of (cache (snd (range_sum_with_cache array lo hi c))) (lo, hi)
        = Some (range_sum_no_cache array lo hi))"
proof -
  have g: "map_of (cache c) k = None \<longrightarrow> LRUCache_get c k = (- 1, c)"
    "map_of (cache c) k = Some (- 1) \<longrightarrow> fst (LRUCache_get c k) = - 1"
    "fst (LRUCache_get c k) = - 1 \<longleftrightarrow> map_of (cache c) k = None \<or> map_of (cache c) k = Some (- 1)"
    by (auto simp: LRUCache_get_def split: option.splits)
  have last: "map_of (AList.delete k' d @ [(k', v')]) k' = Some v'" for k' and d :: OrderedDict and v'
  proof -
    have "map_of (AList.delete k' d) k' = None"
      using delete_keys[of k' d] by (simp add: map_of_eq_None_iff)
    then show ?thesis by (simp add: map_add_def)
  qed
  have p: "LRUCache_put c k v = c\<lparr>cache := AList.delete k (cache c) @ [(k, v)]\<rparr> \<and>
      map_of (cache (LRUCache_put c k v)) k = Some v"
    if "int (length (cache c)) \<le> capacity c \<and> map_of (cache c) k = Some w"
    using put_present[of c k w v] that last by simp
  have r: "range_sum_with_cache array lo hi c
        = (range_sum_no_cache array lo hi,
           LRUCache_put (snd (LRUCache_get c (lo, hi))) (lo, hi)
             (range_sum_no_cache array lo hi))"
    if "map_of (cache c) (lo, hi) = Some (- 1)"
    using that
    by (simp add: LRUCache_get_def range_sum_with_cache_def range_sum_no_cache_def Let_def)
  have s: "range_sum_with_cache array lo hi c
        = (range_sum_no_cache array lo hi,
           c\<lparr>cache := AList.delete (lo, hi) (cache c)
                        @ [((lo, hi), range_sum_no_cache array lo hi)]\<rparr>) \<and>
      map_of (cache (snd (range_sum_with_cache array lo hi c))) (lo, hi)
        = Some (range_sum_no_cache array lo hi)"
    if h: "int (length (cache c)) \<le> capacity c \<and> map_of (cache c) (lo, hi) = Some (- 1)"
  proof -
    let ?k = "(lo, hi)" and ?v = "range_sum_no_cache array lo hi"
    let ?c1 = "c\<lparr>cache := AList.delete ?k (cache c) @ [(?k, - 1)]\<rparr>"
    have c1: "snd (LRUCache_get c ?k) = ?c1"
      using h by (simp add: LRUCache_get_def move_to_end_def)
    have "?k \<in> fst ` set (cache c)" using h by (metis map_of_eq_None_iff option.distinct(1))
    then have "length (AList.delete ?k (cache c)) < length (cache c)"
      by (rule length_delete_present)
    then have l1: "int (length (cache ?c1)) \<le> capacity ?c1" using h by simp
    have m1: "map_of (cache ?c1) ?k = Some (- 1)" using last[of ?k "cache c" "- 1"] by simp
    have "AList.delete ?k (AList.delete ?k (cache c) @ [(?k, - 1)]) = AList.delete ?k (cache c)"
      by (simp add: delete_filter)
    then have "LRUCache_put ?c1 ?k ?v = c\<lparr>cache := AList.delete ?k (cache c) @ [(?k, ?v)]\<rparr>"
      using put_present[OF l1 m1, of ?v] by simp
    then show ?thesis using r h c1 last[of ?k "cache c" ?v] by simp
  qed
  show ?thesis using g p r s by blast
qed

text \<open>
  The theorem at a cache of capacity 2 holding \<open>-1\<close> for \<open>(0,1)\<close>, then 7 for \<open>(2,2)\<close>,
  with the array \<open>[2, 3, 7]\<close>, whose sum over \<open>0..1\<close> is 5: \<open>get((3,4))\<close> misses,
  \<open>get((0,1))\<close> returns \<open>-1\<close> although the key is present, and \<open>range_sum_with_cache\<close>
  returns 5 and leaves \<open>(2,2)\<close> followed by \<open>(0,1)\<close> with the value 5.
\<close>

theorem miss_sentinel_witness:
  "map_of (cache \<lparr>capacity = 2, cache = [((0, 1), - 1), ((2, 2), 7)]\<rparr>) (3, 4) = None \<and>
   LRUCache_get \<lparr>capacity = 2, cache = [((0, 1), - 1), ((2, 2), 7)]\<rparr> (3, 4)
     = (- 1, \<lparr>capacity = 2, cache = [((0, 1), - 1), ((2, 2), 7)]\<rparr>) \<and>
   map_of (cache \<lparr>capacity = 2, cache = [((0, 1), - 1), ((2, 2), 7)]\<rparr>) (0, 1) = Some (- 1) \<and>
   int (length (cache \<lparr>capacity = 2, cache = [((0, 1), - 1), ((2, 2), 7)]\<rparr>))
     \<le> capacity \<lparr>capacity = 2, cache = [((0, 1), - 1), ((2, 2), 7)]\<rparr> \<and>
   fst (LRUCache_get \<lparr>capacity = 2, cache = [((0, 1), - 1), ((2, 2), 7)]\<rparr> (0, 1)) = - 1 \<and>
   LRUCache_put \<lparr>capacity = 2, cache = [((0, 1), - 1), ((2, 2), 7)]\<rparr> (0, 1) 4
     = \<lparr>capacity = 2, cache = [((2, 2), 7), ((0, 1), 4)]\<rparr> \<and>
   range_sum_no_cache [2, 3, 7] 0 1 = 5 \<and>
   range_sum_with_cache [2, 3, 7] 0 1 \<lparr>capacity = 2, cache = [((0, 1), - 1), ((2, 2), 7)]\<rparr>
     = (5, \<lparr>capacity = 2, cache = [((2, 2), 7), ((0, 1), 5)]\<rparr>)"
proof -
  let ?c = "\<lparr>capacity = 2, cache = [((0, 1), - 1), ((2, 2), 7)]\<rparr>"
  have m: "map_of (cache ?c) (3, 4) = None" "map_of (cache ?c) (0, 1) = Some (- 1)"
    "int (length (cache ?c)) \<le> capacity ?c" by simp_all
  have s: "range_sum_no_cache [2, 3, 7] 0 1 = 5"
    by (simp add: range_sum_no_cache_def slice_def slice_bound_def Let_def)
  from miss_sentinel[of ?c "(3, 4)"] m
  have a: "LRUCache_get ?c (3, 4) = (- 1, ?c)" by simp
  note inst = miss_sentinel[of ?c "(0, 1)" "- 1" 4 0 1 "[2, 3, 7]"]
  from inst m have b1: "fst (LRUCache_get ?c (0, 1)) = - 1" by blast
  from inst m have "LRUCache_put ?c (0, 1) 4
      = ?c\<lparr>cache := AList.delete (0, 1) (cache ?c) @ [((0, 1), 4)]\<rparr>" by blast
  then have b2: "LRUCache_put ?c (0, 1) 4 = \<lparr>capacity = 2, cache = [((2, 2), 7), ((0, 1), 4)]\<rparr>"
    by simp
  from inst m have "range_sum_with_cache [2, 3, 7] 0 1 ?c
      = (range_sum_no_cache [2, 3, 7] 0 1,
         ?c\<lparr>cache := AList.delete (0, 1) (cache ?c)
                       @ [((0, 1), range_sum_no_cache [2, 3, 7] 0 1)]\<rparr>)" by blast
  then have b3: "range_sum_with_cache [2, 3, 7] 0 1 ?c
       = (5, \<lparr>capacity = 2, cache = [((2, 2), 7), ((0, 1), 5)]\<rparr>)"
    by (simp add: s)
  note b = b1 b2 b3
  show ?thesis using m a b s by simp
qed

subsection \<open>Construction\<close>

text \<open>
  C5 (capacity validation at construction), as the code has it.  The constructor checks
  nothing: for every integer \<open>c\<close>, also \<open>c \<le> 0\<close>, it returns an empty cache of capacity
  \<open>c\<close>.  With \<open>c \<le> 0\<close> every \<open>put\<close> on that cache evicts the entry it has just
  inserted, and every \<open>get\<close> misses.
\<close>

theorem construction_unchecked:
  "LRUCache_init c = Inr \<lparr>capacity = c, cache = []\<rparr> \<and>
   (c \<le> 0 \<longrightarrow>
      LRUCache_put \<lparr>capacity = c, cache = []\<rparr> ky v = \<lparr>capacity = c, cache = []\<rparr> \<and>
      LRUCache_get \<lparr>capacity = c, cache = []\<rparr> ky = (- 1, \<lparr>capacity = c, cache = []\<rparr>))"
  by (simp add: LRUCache_init_def LRUCache_put_def LRUCache_get_def od_contains_def
      popitem_first_def Let_def)

text \<open>
  The theorem at \<open>c = 0\<close>.
\<close>

theorem construction_unchecked_witness:
  "(0 :: int) \<le> 0 \<and> LRUCache_init 0 = Inr \<lparr>capacity = 0, cache = []\<rparr> \<and>
   LRUCache_put \<lparr>capacity = 0, cache = []\<rparr> (0, 2) 5 = \<lparr>capacity = 0, cache = []\<rparr>"
  using construction_unchecked[of 0 "(0, 2)" 5] by simp

text \<open>
  The claim as the specification states it, that a capacity \<open>c \<le> 0\<close> is rejected,
  fails at \<open>c = 0\<close> and at \<open>c = -3\<close>: the constructor returns a cache.
\<close>

theorem construction_counterexample:
  "LRUCache_init 0 = Inr \<lparr>capacity = 0, cache = []\<rparr> \<and>
   LRUCache_init (- 3) = Inr \<lparr>capacity = - 3, cache = []\<rparr>"
  by (simp add: LRUCache_init_def)

subsection \<open>Range sums over slices\<close>




lemma slice_in_bounds:
  assumes "0 \<le> l" "r < int (length a)" "- 1 \<le> r"
  shows "slice a l (r + 1) = map (\<lambda>i. a ! nat i) [l..r]"
proof (cases "l \<le> r")
  case True
  have s: "slice a l (r + 1) = take (nat (r + 1 - l)) (drop (nat l) a)"
    using assms True by (simp add: slice_def slice_bound_def Let_def min_def)
  show ?thesis unfolding s
  proof (rule nth_equalityI)
    show "length (take (nat (r + 1 - l)) (drop (nat l) a)) = length (map (\<lambda>i. a ! nat i) [l..r])"
      using assms True by simp
  next
    fix k assume "k < length (take (nat (r + 1 - l)) (drop (nat l) a))"
    then have k: "int k < r + 1 - l" by simp linarith
    then have "[l..r] ! k = l + int k" by (intro nth_upto) simp
    moreover have "nat (l + int k) = nat l + k" using assms(1) by (simp add: nat_add_distrib)
    ultimately show "take (nat (r + 1 - l)) (drop (nat l) a) ! k = map (\<lambda>i. a ! nat i) [l..r] ! k"
      using k assms True by simp
  qed
next
  case False
  then have "slice a l (r + 1) = []" using assms
    by (simp add: slice_def slice_bound_def Let_def min_def)
  then show ?thesis using False by simp
qed

lemma slice_clamped:
  assumes "0 \<le> l" "0 \<le> r"
  shows "slice a l (r + 1) = map (\<lambda>i. a ! nat i) [l..min r (int (length a) - 1)]"
proof (cases "r < int (length a)")
  case True
  then show ?thesis using slice_in_bounds[OF assms(1) True] assms(2) by (simp add: min_def)
next
  case False
  then have "slice a l (r + 1) = slice a l (int (length a) - 1 + 1)"
    using assms by (auto simp: slice_def slice_bound_def Let_def min_def)
  also have "\<dots> = map (\<lambda>i. a ! nat i) [l..int (length a) - 1]"
    by (rule slice_in_bounds) (use assms in auto)
  finally show ?thesis using False by (simp add: min_def)
qed




subsection \<open>Coherence of the cache with the array\<close>

lemma slice_clamped_from:
  assumes "0 \<le> l" "- 1 \<le> r"
  shows "slice a l (r + 1) = map (\<lambda>i. a ! nat i) [l..min r (int (length a) - 1)]"
proof (cases "0 \<le> r")
  case True
  show ?thesis by (rule slice_clamped[OF assms(1) True])
next
  case False
  then have r: "r = - 1" using assms(2) by simp
  have "slice a l (r + 1) = []"
    using assms(1) by (simp add: r slice_def slice_bound_def Let_def)
  moreover have "[l..min r (int (length a) - 1)] = []"
    using assms(1) by (simp add: r)
  ultimately show ?thesis by simp
qed

lemma range_sum_true:
  "0 \<le> l \<Longrightarrow> - 1 \<le> r \<Longrightarrow> range_sum_no_cache a l r = true_range_sum a l r"
  by (simp add: range_sum_no_cache_def true_range_sum_def slice_clamped_from)

lemma setitem_in_bounds:
  "0 \<le> i \<Longrightarrow> i < int (length a) \<Longrightarrow> setitem a i v = Inr (a[nat i := v])"
  by (simp add: setitem_def Let_def)

lemma setitem_beyond:
  "int (length a) \<le> i \<Longrightarrow> setitem a i v = Inl IndexError"
  by (simp add: setitem_def Let_def)

lemma true_range_sum_update_outside:
  assumes "0 \<le> l" "0 \<le> i" "\<not> (l \<le> i \<and> i \<le> r)"
  shows "true_range_sum (a[nat i := v]) l r = true_range_sum a l r"
proof -
  let ?m = "min r (int (length a) - 1)"
  have "map (\<lambda>j. a[nat i := v] ! nat j) [l..?m] = map (\<lambda>j. a ! nat j) [l..?m]"
  proof (rule map_cong[OF refl])
    fix j assume "j \<in> set [l..?m]"
    then have "nat j \<noteq> nat i" using assms by auto
    then show "a[nat i := v] ! nat j = a ! nat j" by simp
  qed
  then show ?thesis unfolding true_range_sum_def length_list_update by (rule arg_cong)
qed

lemma get_set: "set (cache (snd (LRUCache_get c k))) \<subseteq> set (cache c)"
  using move_to_end_set[of "cache c" k]
  by (auto simp: LRUCache_get_def split: option.splits)

lemma put_set: "set (cache (LRUCache_put c k v)) \<subseteq> insert (k, v) (set (cache c))"
proof -
  let ?d1 = "if od_contains (cache c) k then move_to_end (cache c) k else cache c"
  have "set ?d1 \<subseteq> set (cache c)" using move_to_end_set[of "cache c" k] by auto
  then have "set (AList.update k v ?d1) \<subseteq> insert (k, v) (set (cache c))"
    using update_set[of k v ?d1] by blast
  moreover have "set (tl (AList.update k v ?d1)) \<subseteq> set (AList.update k v ?d1)"
    by (cases "AList.update k v ?d1") auto
  ultimately show ?thesis
    by (auto simp: LRUCache_put_def Let_def popitem_first_def)
qed

lemma coherent_mono:
  "coherent a c \<Longrightarrow> set (cache c') \<subseteq> set (cache c) \<Longrightarrow> coherent a c'"
  by (auto simp: coherent_def)

lemma keys_ok_mono:
  "keys_ok c \<Longrightarrow> set (cache c') \<subseteq> set (cache c) \<Longrightarrow> keys_ok c'"
  by (auto simp: keys_ok_def)

lemma put_coherent:
  "coherent a c \<Longrightarrow> v = true_range_sum a l r \<Longrightarrow> coherent a (LRUCache_put c (l, r) v)"
  using put_set[of c "(l, r)" v] by (auto simp: coherent_def)

lemma put_keys_ok:
  "keys_ok c \<Longrightarrow> 0 \<le> l \<Longrightarrow> - 1 \<le> r \<Longrightarrow> keys_ok (LRUCache_put c (l, r) v)"
  using put_set[of c "(l, r)" v] by (auto simp: keys_ok_def)

lemma range_sum_with_cache_ok:
  assumes "coherent a c" "keys_ok c" "0 \<le> l" "- 1 \<le> r"
  shows "fst (range_sum_with_cache a l r c) = range_sum_no_cache a l r
         \<and> coherent a (snd (range_sum_with_cache a l r c))
         \<and> keys_ok (snd (range_sum_with_cache a l r c))"
proof -
  have t: "range_sum_no_cache a l r = true_range_sum a l r"
    using range_sum_true[OF assms(3,4)] .
  then have s: "sum_list (slice a l (r + 1)) = true_range_sum a l r"
    by (simp add: range_sum_no_cache_def)
  obtain v c1 where g: "LRUCache_get c (l, r) = (v, c1)" by fastforce
  have c1: "coherent a c1" "keys_ok c1"
    using coherent_mono[OF assms(1) get_set[of c "(l, r)"]]
      keys_ok_mono[OF assms(2) get_set[of c "(l, r)"]] g by auto
  have p: "coherent a (LRUCache_put c1 (l, r) (true_range_sum a l r))"
      "keys_ok (LRUCache_put c1 (l, r) (true_range_sum a l r))"
    using put_coherent[OF c1(1) refl] put_keys_ok[OF c1(2) assms(3,4)] by auto
  show ?thesis
  proof (cases "v = - 1")
    case True
    then show ?thesis using p by (simp add: range_sum_with_cache_def g s t Let_def)
  next
    case False
    then obtain w where "map_of (cache c) (l, r) = Some w" "w = v"
      using g by (auto simp: LRUCache_get_def split: option.splits)
    then have "((l, r), v) \<in> set (cache c)" by (auto dest: map_of_SomeD)
    then have "v = true_range_sum a l r" using assms(1) by (auto simp: coherent_def)
    then show ?thesis using c1 False by (simp add: range_sum_with_cache_def g t Let_def)
  qed
qed

lemma update_with_cache_ok:
  assumes "coherent a c" "keys_ok c" "0 \<le> i" "i < int (length a)"
  shows "update_with_cache a i v c = Inr (a[nat i := v], LRUCache_invalidate_ranges_containing c i)
         \<and> coherent (a[nat i := v]) (LRUCache_invalidate_ranges_containing c i)
         \<and> keys_ok (LRUCache_invalidate_ranges_containing c i)"
proof -
  have "coherent (a[nat i := v]) (LRUCache_invalidate_ranges_containing c i)"
    unfolding coherent_def invalidate_covers
  proof
    fix e assume "e \<in> set (filter (\<lambda>e. \<not> covers i e) (cache c))"
    then have e: "e \<in> set (cache c)" "\<not> (fst (fst e) \<le> i \<and> i \<le> snd (fst e))"
      by (auto simp: covers_def)
    then have "0 \<le> fst (fst e)" "snd e = true_range_sum a (fst (fst e)) (snd (fst e))"
      using assms(1,2) by (auto simp: coherent_def keys_ok_def)
    then show "snd e = true_range_sum (a[nat i := v]) (fst (fst e)) (snd (fst e))"
      using true_range_sum_update_outside[OF _ assms(3) e(2)] by simp
  qed
  moreover have "keys_ok (LRUCache_invalidate_ranges_containing c i)"
    using assms(2) by (auto simp: keys_ok_def invalidate_covers)
  ultimately show ?thesis
    using assms(3,4) by (simp add: update_with_cache_def setitem_in_bounds)
qed

lemma update_with_cache_beyond:
  "int (length a) \<le> i \<Longrightarrow> update_with_cache a i v c = Inl IndexError"
  by (simp add: update_with_cache_def setitem_beyond)

lemma run_queries_ok:
  assumes "coherent a c" "keys_ok c" "list_all positions_ok qs"
  shows "run_queries_no_cache (a, out) qs = map_sum id drop_cache (run_queries (a, c, out) qs)
         \<and> (\<forall>a' c' out'. run_queries (a, c, out) qs = Inr (a', c', out') \<longrightarrow>
              length a' = length a \<and> coherent a' c' \<and> keys_ok c')
         \<and> (list_all (in_range (length a)) qs \<longrightarrow> (\<exists>st. run_queries (a, c, out) qs = Inr st))"
  using assms
proof (induction qs arbitrary: a c out)
  case Nil
  then show ?case by (simp add: drop_cache_def)
next
  case (Cons q qs)
  show ?case
  proof (cases q)
    case (Range l r)
    then have b: "0 \<le> l" "- 1 \<le> r" using Cons.prems(3) by auto
    obtain res c1 where rs: "range_sum_with_cache a l r c = (res, c1)" by fastforce
    from range_sum_with_cache_ok[OF Cons.prems(1,2) b] rs
    have ok: "res = range_sum_no_cache a l r" "coherent a c1" "keys_ok c1" by auto
    have qs: "list_all positions_ok qs" using Cons.prems(3) by simp
    from Cons.IH[OF ok(2,3) qs, of "out @ [res]"]
    show ?thesis using Range rs ok(1) by simp
  next
    case (Update i v)
    then have b: "0 \<le> i" using Cons.prems(3) by auto
    have qs: "list_all positions_ok qs" using Cons.prems(3) by simp
    show ?thesis
    proof (cases "i < int (length a)")
      case True
      let ?a1 = "a[nat i := v]" and ?c1 = "LRUCache_invalidate_ranges_containing c i"
      from update_with_cache_ok[OF Cons.prems(1,2) b True, of v]
      have ok: "update_with_cache a i v c = Inr (?a1, ?c1)" "coherent ?a1 ?c1" "keys_ok ?c1" by auto
      from Cons.IH[OF ok(2,3) qs, of out]
      show ?thesis
        using Update ok(1) b True by (simp add: update_no_cache_def setitem_in_bounds)
    next
      case False
      then show ?thesis
        using Update by (simp add: update_no_cache_def setitem_beyond update_with_cache_beyond)
    qed
  qed
qed

lemma get_after_invalidate:
  assumes "l \<le> p" "p \<le> r"
  shows "LRUCache_get (LRUCache_invalidate_ranges_containing c p) (l, r)
           = (- 1, LRUCache_invalidate_ranges_containing c p)"
proof -
  have "(l, r) \<notin> fst ` set (filter (\<lambda>e. \<not> covers p e) (cache c))"
    using assms by (auto simp: covers_def)
  then have "map_of (cache (LRUCache_invalidate_ranges_containing c p)) (l, r) = None"
    unfolding invalidate_covers by (simp add: map_of_eq_None_iff)
  then show ?thesis by (simp add: LRUCache_get_def)
qed

text \<open>
  C1 (cache coherence under mutation), as the code has it: for numbers that are not
  negative.  Take any array, a fresh cache of any capacity, and any sequence of
  \<open>range_sum_with_cache\<close> calls with \<open>0 \<le> left\<close> and \<open>-1 \<le> right\<close> (neither bound of the
  slice \<open>array[left : right + 1]\<close> is negative; the range may reach beyond the end of the
  array or be empty) and \<open>update_with_cache\<close> calls with \<open>0 \<le> index\<close>.  The cached run
  does what the same calls without a cache do: it returns the same sums and leaves the
  same array, or raises the same \<open>IndexError\<close>, which only an update with
  \<open>len(array) \<le> index\<close> does; with every index before the end of the array it returns.
  When it returns, every cached entry \<open>(left, right)\<close> holds the true sum of the current
  array over \<open>left .. right\<close>.  A further \<open>update_with_cache\<close> at \<open>idx \<ge> 0\<close> then
  either raises \<open>IndexError\<close>, for \<open>len(array) \<le> idx\<close>, or writes \<open>array[idx] = v\<close> and
  removes exactly the entries whose key covers \<open>idx\<close>, keeping the cache coherent with the
  updated array; a \<open>get\<close> on any key covering \<open>idx\<close> then misses, and
  \<open>range_sum_with_cache\<close> on such a range returns the true sum of the updated array,
  which is what \<open>range_sum_no_cache\<close> returns.
\<close>

theorem cache_coherence:
  assumes "LRUCache_init k = Inr c0" and "list_all positions_ok qs"
  shows "run_queries_no_cache (array, []) qs
           = map_sum id drop_cache (run_queries (array, c0, []) qs) \<and>
         (list_all (in_range (length array)) qs \<longrightarrow>
            (\<exists>st. run_queries (array, c0, []) qs = Inr st)) \<and>
         (\<forall>array' c' out. run_queries (array, c0, []) qs = Inr (array', c', out) \<longrightarrow>
            length array' = length array \<and> coherent array' c' \<and>
            (\<forall>idx v lo hi. 0 \<le> idx \<longrightarrow>
               (int (length array') \<le> idx \<longrightarrow>
                  update_with_cache array' idx v c' = Inl IndexError) \<and>
               (idx < int (length array') \<longrightarrow>
                  (\<exists>c''. update_with_cache array' idx v c' = Inr (array'[nat idx := v], c'') \<and>
                     cache c'' = filter (\<lambda>e. \<not> covers idx e) (cache c') \<and>
                     coherent (array'[nat idx := v]) c'' \<and>
                     (lo \<le> idx \<and> idx \<le> hi \<longrightarrow>
                        LRUCache_get c'' (lo, hi) = (- 1, c'') \<and>
                        (0 \<le> lo \<longrightarrow>
                           fst (range_sum_with_cache (array'[nat idx := v]) lo hi c'')
                             = true_range_sum (array'[nat idx := v]) lo hi \<and>
                           range_sum_no_cache (array'[nat idx := v]) lo hi
                             = true_range_sum (array'[nat idx := v]) lo hi))))))"
proof -
  have c0: "c0 = \<lparr>capacity = k, cache = []\<rparr>"
    using assms(1) by (simp add: LRUCache_init_def)
  have init: "coherent array c0" "keys_ok c0"
    by (simp_all add: c0 coherent_def keys_ok_def)
  note run = run_queries_ok[OF init assms(2), of "[]"]
  have step: "(int (length a') \<le> idx \<longrightarrow> update_with_cache a' idx v c' = Inl IndexError) \<and>
              (idx < int (length a') \<longrightarrow>
                 (\<exists>c''. update_with_cache a' idx v c' = Inr (a'[nat idx := v], c'') \<and>
                 cache c'' = filter (\<lambda>e. \<not> covers idx e) (cache c') \<and>
                 coherent (a'[nat idx := v]) c'' \<and>
                 (lo \<le> idx \<and> idx \<le> hi \<longrightarrow>
                    LRUCache_get c'' (lo, hi) = (- 1, c'') \<and>
                    (0 \<le> lo \<longrightarrow>
                       fst (range_sum_with_cache (a'[nat idx := v]) lo hi c'')
                         = true_range_sum (a'[nat idx := v]) lo hi \<and>
                       range_sum_no_cache (a'[nat idx := v]) lo hi
                         = true_range_sum (a'[nat idx := v]) lo hi))))"
    if r: "run_queries (array, c0, []) qs = Inr (a', c', out)" and b: "0 \<le> idx"
    for a' c' out idx v lo hi
  proof -
    from run r have st: "coherent a' c'" "keys_ok c'" by auto
    let ?a = "a'[nat idx := v]" and ?c = "LRUCache_invalidate_ranges_containing c' idx"
    have far: "update_with_cache a' idx v c' = Inl IndexError" if "int (length a') \<le> idx"
      using that by (rule update_with_cache_beyond)
    have near: "\<exists>c''. update_with_cache a' idx v c' = Inr (?a, c'') \<and>
                 cache c'' = filter (\<lambda>e. \<not> covers idx e) (cache c') \<and>
                 coherent ?a c'' \<and>
                 (lo \<le> idx \<and> idx \<le> hi \<longrightarrow>
                    LRUCache_get c'' (lo, hi) = (- 1, c'') \<and>
                    (0 \<le> lo \<longrightarrow>
                       fst (range_sum_with_cache ?a lo hi c'') = true_range_sum ?a lo hi \<and>
                       range_sum_no_cache ?a lo hi = true_range_sum ?a lo hi))"
      if lt: "idx < int (length a')"
    proof -
      from update_with_cache_ok[OF st b lt, of v]
      have ok: "update_with_cache a' idx v c' = Inr (?a, ?c)" "coherent ?a ?c" "keys_ok ?c" by auto
      have "fst (range_sum_with_cache ?a lo hi ?c) = true_range_sum ?a lo hi \<and>
            range_sum_no_cache ?a lo hi = true_range_sum ?a lo hi"
        if "lo \<le> idx" "idx \<le> hi" "0 \<le> lo"
      proof -
        have h: "- 1 \<le> hi" using that b by simp
        show ?thesis
          using range_sum_with_cache_ok[OF ok(2,3) that(3) h] range_sum_true[OF that(3) h, of ?a]
          by simp
      qed
      then show ?thesis
        using ok(1,2) get_after_invalidate[of lo idx hi c'] invalidate_covers[of c' idx]
        by (intro exI[of _ ?c]) simp
    qed
    show ?thesis using far near by blast
  qed
  have post: "length a' = length array \<and> coherent a' c'"
    if "run_queries (array, c0, []) qs = Inr (a', c', out)" for a' c' out
    using run that by auto
  have same: "run_queries_no_cache (array, []) qs
           = map_sum id drop_cache (run_queries (array, c0, []) qs)"
    using run by blast
  have returns: "list_all (in_range (length array)) qs \<longrightarrow>
            (\<exists>st. run_queries (array, c0, []) qs = Inr st)"
    using run by blast
  have after: "\<forall>array' c' out. run_queries (array, c0, []) qs = Inr (array', c', out) \<longrightarrow>
            length array' = length array \<and> coherent array' c' \<and>
            (\<forall>idx v lo hi. 0 \<le> idx \<longrightarrow>
               (int (length array') \<le> idx \<longrightarrow>
                  update_with_cache array' idx v c' = Inl IndexError) \<and>
               (idx < int (length array') \<longrightarrow>
                  (\<exists>c''. update_with_cache array' idx v c' = Inr (array'[nat idx := v], c'') \<and>
                     cache c'' = filter (\<lambda>e. \<not> covers idx e) (cache c') \<and>
                     coherent (array'[nat idx := v]) c'' \<and>
                     (lo \<le> idx \<and> idx \<le> hi \<longrightarrow>
                        LRUCache_get c'' (lo, hi) = (- 1, c'') \<and>
                        (0 \<le> lo \<longrightarrow>
                           fst (range_sum_with_cache (array'[nat idx := v]) lo hi c'')
                             = true_range_sum (array'[nat idx := v]) lo hi \<and>
                           range_sum_no_cache (array'[nat idx := v]) lo hi
                             = true_range_sum (array'[nat idx := v]) lo hi)))))"
  proof (intro allI impI)
    fix a' c' out
    assume r: "run_queries (array, c0, []) qs = Inr (a', c', out)"
    have "length a' = length array" "coherent a' c'" using post[OF r] by simp_all
    moreover have "\<forall>idx v lo hi. 0 \<le> idx \<longrightarrow>
               (int (length a') \<le> idx \<longrightarrow>
                  update_with_cache a' idx v c' = Inl IndexError) \<and>
               (idx < int (length a') \<longrightarrow>
                  (\<exists>c''. update_with_cache a' idx v c' = Inr (a'[nat idx := v], c'') \<and>
                     cache c'' = filter (\<lambda>e. \<not> covers idx e) (cache c') \<and>
                     coherent (a'[nat idx := v]) c'' \<and>
                     (lo \<le> idx \<and> idx \<le> hi \<longrightarrow>
                        LRUCache_get c'' (lo, hi) = (- 1, c'') \<and>
                        (0 \<le> lo \<longrightarrow>
                           fst (range_sum_with_cache (a'[nat idx := v]) lo hi c'')
                             = true_range_sum (a'[nat idx := v]) lo hi \<and>
                           range_sum_no_cache (a'[nat idx := v]) lo hi
                             = true_range_sum (a'[nat idx := v]) lo hi))))"
      using step[OF r] by (intro allI impI)
    ultimately show "length a' = length array \<and> coherent a' c' \<and>
            (\<forall>idx v lo hi. 0 \<le> idx \<longrightarrow>
               (int (length a') \<le> idx \<longrightarrow>
                  update_with_cache a' idx v c' = Inl IndexError) \<and>
               (idx < int (length a') \<longrightarrow>
                  (\<exists>c''. update_with_cache a' idx v c' = Inr (a'[nat idx := v], c'') \<and>
                     cache c'' = filter (\<lambda>e. \<not> covers idx e) (cache c') \<and>
                     coherent (a'[nat idx := v]) c'' \<and>
                     (lo \<le> idx \<and> idx \<le> hi \<longrightarrow>
                        LRUCache_get c'' (lo, hi) = (- 1, c'') \<and>
                        (0 \<le> lo \<longrightarrow>
                           fst (range_sum_with_cache (a'[nat idx := v]) lo hi c'')
                             = true_range_sum (a'[nat idx := v]) lo hi \<and>
                           range_sum_no_cache (a'[nat idx := v]) lo hi
                             = true_range_sum (a'[nat idx := v]) lo hi)))))"
      by (intro conjI)
  qed
  show ?thesis using same returns after by (intro conjI)
qed

text \<open>
  The theorem on the array \<open>[1, 2, 3]\<close> with the calls \<open>range_sum(1, 7)\<close>,
  \<open>update(2, 10)\<close>, \<open>range_sum(1, 7)\<close>, \<open>range_sum(2, 0)\<close>: the sums are 5, 12 and 0, as
  without a cache, and the entries \<open>(1, 7)\<close> and \<open>(2, 0)\<close> hold 12 and 0.  An update of
  position 5 then raises \<open>IndexError\<close>; the update of position 1 to 100 removes the entry
  \<open>(1, 7)\<close> and keeps \<open>(2, 0)\<close>, and the recomputed sum of \<open>(1, 7)\<close> is 110.
\<close>

theorem cache_coherence_witness:
  "LRUCache_init 2 = Inr \<lparr>capacity = 2, cache = []\<rparr> \<and>
   list_all positions_ok [Range 1 7, Update 2 10, Range 1 7, Range 2 0] \<and>
   list_all (in_range (length [1, 2, 3 :: int])) [Range 1 7, Update 2 10, Range 1 7, Range 2 0] \<and>
   run_queries ([1, 2, 3], \<lparr>capacity = 2, cache = []\<rparr>, [])
       [Range 1 7, Update 2 10, Range 1 7, Range 2 0]
     = Inr ([1, 2, 10], \<lparr>capacity = 2, cache = [((1, 7), 12), ((2, 0), 0)]\<rparr>, [5, 12, 0]) \<and>
   run_queries_no_cache ([1, 2, 3], []) [Range 1 7, Update 2 10, Range 1 7, Range 2 0]
     = Inr ([1, 2, 10], [5, 12, 0]) \<and>
   coherent [1, 2, 10] \<lparr>capacity = 2, cache = [((1, 7), 12), ((2, 0), 0)]\<rparr> \<and>
   (0 :: int) \<le> 5 \<and> int (length [1, 2, 10 :: int]) \<le> 5 \<and>
   update_with_cache [1, 2, 10] 5 100 \<lparr>capacity = 2, cache = [((1, 7), 12), ((2, 0), 0)]\<rparr>
     = Inl IndexError \<and>
   (0 :: int) \<le> 1 \<and> (1 :: int) < int (length [1, 2, 10 :: int]) \<and>
   update_with_cache [1, 2, 10] 1 100 \<lparr>capacity = 2, cache = [((1, 7), 12), ((2, 0), 0)]\<rparr>
     = Inr ([1, 100, 10], \<lparr>capacity = 2, cache = [((2, 0), 0)]\<rparr>) \<and>
   LRUCache_get \<lparr>capacity = 2, cache = [((2, 0), 0)]\<rparr> (1, 7)
     = (- 1, \<lparr>capacity = 2, cache = [((2, 0), 0)]\<rparr>) \<and>
   fst (range_sum_with_cache [1, 100, 10] 1 7 \<lparr>capacity = 2, cache = [((2, 0), 0)]\<rparr>) = 110 \<and>
   range_sum_no_cache [1, 100, 10] 1 7 = 110"
proof -
  let ?start = "\<lparr>capacity = 2, cache = []\<rparr>"
  let ?after = "\<lparr>capacity = 2, cache = [((1, 7), 12), ((2, 0), 0)]\<rparr>"
  let ?last = "\<lparr>capacity = 2, cache = [((2, 0), 0)]\<rparr>"
  let ?qs = "[Range 1 7, Update 2 10, Range 1 7, Range 2 0]"
  have h1: "LRUCache_init 2 = Inr ?start" by (simp add: LRUCache_init_def)
  have h2: "list_all positions_ok ?qs" by simp
  have h3: "list_all (in_range (length [1, 2, 3 :: int])) ?qs" by simp
  have e: "run_queries ([1, 2, 3], ?start, []) ?qs = Inr ([1, 2, 10], ?after, [5, 12, 0])"
    by (simp add: range_sum_with_cache_def LRUCache_get_def LRUCache_put_def od_contains_def
        slice_def slice_bound_def update_with_cache_def setitem_def
        LRUCache_invalidate_ranges_containing_def Let_def)
  note inst = cache_coherence[OF h1 h2, of "[1, 2, 3]"]
  from inst e have nc: "run_queries_no_cache ([1, 2, 3], []) ?qs = Inr ([1, 2, 10], [5, 12, 0])"
    by (simp add: drop_cache_def)
  from inst e have coh: "coherent [1, 2, 10] ?after" by blast
  from inst e have st: "\<And>idx v lo hi. 0 \<le> idx \<longrightarrow>
               (int (length [1, 2, 10 :: int]) \<le> idx \<longrightarrow>
                  update_with_cache [1, 2, 10] idx v ?after = Inl IndexError) \<and>
               (idx < int (length [1, 2, 10 :: int]) \<longrightarrow>
                  (\<exists>c''. update_with_cache [1, 2, 10] idx v ?after = Inr ([1, 2, 10][nat idx := v], c'') \<and>
                     cache c'' = filter (\<lambda>e. \<not> covers idx e) (cache ?after) \<and>
                     coherent ([1, 2, 10][nat idx := v]) c'' \<and>
                     (lo \<le> idx \<and> idx \<le> hi \<longrightarrow>
                        LRUCache_get c'' (lo, hi) = (- 1, c'') \<and>
                        (0 \<le> lo \<longrightarrow>
                           fst (range_sum_with_cache ([1, 2, 10][nat idx := v]) lo hi c'')
                             = true_range_sum ([1, 2, 10][nat idx := v]) lo hi \<and>
                           range_sum_no_cache ([1, 2, 10][nat idx := v]) lo hi
                             = true_range_sum ([1, 2, 10][nat idx := v]) lo hi))))"
    by blast
  from st[of 5 100 0 0] have far: "update_with_cache [1, 2, 10] 5 100 ?after = Inl IndexError"
    by simp
  have u: "update_with_cache [1, 2, 10] 1 100 ?after = Inr ([1, 100, 10], ?last)"
    by (simp add: update_with_cache_def setitem_def LRUCache_invalidate_ranges_containing_def Let_def)
  have t: "true_range_sum [1, 100, 10] 1 7 = 110"
    by (simp add: true_range_sum_def upto_rec1)
  from st[of 1 100 1 7] u
  have "LRUCache_get ?last (1, 7) = (- 1, ?last)"
    and "fst (range_sum_with_cache [1, 100, 10] 1 7 ?last) = true_range_sum [1, 100, 10] 1 7"
    and "range_sum_no_cache [1, 100, 10] 1 7 = true_range_sum [1, 100, 10] 1 7"
    by auto
  with h1 h2 h3 e nc coh far u t show ?thesis by simp
qed

text \<open>
  The claim as the specification states it, for every sequence of calls, fails where a
  number is negative, which Python accepts and reads from the end of the array, while
  \<open>invalidate_ranges_containing\<close> compares the numbers as they are.  On \<open>[1, 2, 3]\<close>
  with the sum of \<open>(0, 2)\<close> cached, \<open>update_with_cache(array, -1, 10, cache)\<close> writes the
  last element and invalidates the ranges containing \<open>-1\<close>: the entry of \<open>(0, 2)\<close> stays
  and the next \<open>range_sum_with_cache\<close> returns the stale 6, where the array sums to 13.
  With the sum of \<open>(-3, -2)\<close>, the elements at the positions 0 and 1, cached, the update
  of position 0 leaves the entry, since \<open>-3 \<le> 0 \<le> -2\<close> is false; the next call returns
  the stale 3, where the uncached call returns 12.  The same happens with the range
  \<open>(0, -2)\<close>.
\<close>

theorem cache_coherence_counterexample:
  "run_queries ([1, 2, 3], \<lparr>capacity = 2, cache = []\<rparr>, [])
       [Range 0 2, Update (- 1) 10, Range 0 2]
     = Inr ([1, 2, 10], \<lparr>capacity = 2, cache = [((0, 2), 6)]\<rparr>, [6, 6]) \<and>
   run_queries_no_cache ([1, 2, 3], []) [Range 0 2, Update (- 1) 10, Range 0 2]
     = Inr ([1, 2, 10], [6, 13]) \<and>
   \<not> coherent [1, 2, 10] \<lparr>capacity = 2, cache = [((0, 2), 6)]\<rparr> \<and>
   run_queries ([1, 2, 3], \<lparr>capacity = 2, cache = []\<rparr>, [])
       [Range (- 3) (- 2), Update 0 10, Range (- 3) (- 2)]
     = Inr ([10, 2, 3], \<lparr>capacity = 2, cache = [((- 3, - 2), 3)]\<rparr>, [3, 3]) \<and>
   run_queries_no_cache ([1, 2, 3], []) [Range (- 3) (- 2), Update 0 10, Range (- 3) (- 2)]
     = Inr ([10, 2, 3], [3, 12]) \<and>
   run_queries ([1, 2, 3], \<lparr>capacity = 2, cache = []\<rparr>, [])
       [Range 0 (- 2), Update 0 10, Range 0 (- 2)]
     = Inr ([10, 2, 3], \<lparr>capacity = 2, cache = [((0, - 2), 3)]\<rparr>, [3, 3]) \<and>
   run_queries_no_cache ([1, 2, 3], []) [Range 0 (- 2), Update 0 10, Range 0 (- 2)]
     = Inr ([10, 2, 3], [3, 12])"
  by (simp add: LRUCache_init_def range_sum_with_cache_def LRUCache_get_def LRUCache_put_def
      od_contains_def slice_def slice_bound_def update_with_cache_def setitem_def move_to_end_def
      LRUCache_invalidate_ranges_containing_def coherent_def true_range_sum_def Let_def
      range_sum_no_cache_def update_no_cache_def upto_rec1)

section \<open>Properties of the splay tree\<close>

subsection \<open>Shapes, ways and the store\<close>

text \<open>
  Whether a link leads to a tree of a shape, or a way leads up to the root, depends only
  on the links of the nodes involved.
\<close>

lemma tree_at_cong:
  "\<forall>a \<in> set (inorder s). same_links t t' a \<Longrightarrow> tree_at t' par p s = tree_at t par p s"
  by (induction s arbitrary: par p) (auto simp: same_links_def)

lemma way_at_cong:
  "\<forall>a \<in> set (before fs) \<union> set (after fs). same_links t t' a \<Longrightarrow>
     way_at t' par rt fs c = way_at t par rt fs c"
proof (induction fs arbitrary: c)
  case Nil
  then show ?case by simp
next
  case (Cons f fs)
  show ?case
  proof (cases f)
    case (LeftOf a r)
    have "same_links t t' a" "\<forall>b \<in> set (inorder r). same_links t t' b"
      "\<forall>a \<in> set (before fs) \<union> set (after fs). same_links t t' a"
      using Cons.prems LeftOf by auto
    then show ?thesis
      using Cons.IH[of "Some a"] tree_at_cong[of r t t']
      by (simp add: LeftOf same_links_def)
  next
    case (RightOf l a)
    have "same_links t t' a" "\<forall>b \<in> set (inorder l). same_links t t' b"
      "\<forall>a \<in> set (before fs) \<union> set (after fs). same_links t t' a"
      using Cons.prems RightOf by auto
    then show ?thesis
      using Cons.IH[of "Some a"] tree_at_cong[of l t t']
      by (simp add: RightOf same_links_def)
  qed
qed

lemma inorder_plug: "inorder (plug fs s) = before fs @ inorder s @ after fs"
  by (induction fs s rule: plug.induct) auto

lemma tree_at_plug:
  "way_at t par rt fs c \<Longrightarrow> tree_at t (upper par fs) c s \<Longrightarrow> tree_at t par rt (plug fs s)"
proof (induction fs arbitrary: c s)
  case Nil
  then show ?case by simp
next
  case (Cons f fs)
  then show ?case by (cases f) auto
qed

subsection \<open>Comparing nodes\<close>

text \<open>
  The comparisons the code makes: a node with itself, with \<open>None\<close>, and with a node of
  another key.
\<close>

lemma node_eq_same [simp]: "node_eq t (Some x) (Some x) = Some True"
  by (simp add: node_eq_def)

lemma node_eq_None [simp]: "node_eq t (Some x) None = Some False" "node_eq t None (Some x) = Some False"
  by (simp_all add: node_eq_def)

lemma node_eq_diff: "key (heap t x) \<noteq> key (heap t y) \<Longrightarrow> node_eq t (Some x) (Some y) = Some False"
  by (auto simp: node_eq_def)

lemma node_eq_data:
  "\<forall>a. key (heap t' a) = key (heap t a) \<and> val (heap t' a) = val (heap t a) \<Longrightarrow>
     node_eq t' a b = node_eq t a b"
  by (auto simp: node_eq_def split: option.splits)

subsection \<open>What a rotation writes\<close>

text \<open>
  The store after \<open>_right_rotate(x)\<close>, link by link, for a node \<open>x\<close> with left child
  \<open>y\<close>, when the nodes involved are different objects and the comparison of \<open>x\<close> with
  the right child of its parent gives \<open>xr\<close>.
\<close>

lemma right_rotate_effect:
  assumes xy: "left (heap t x) = Some y" "x \<noteq> y"
    and b: "right (heap t y) \<noteq> Some x" "right (heap t y) \<noteq> Some y"
    and px: "parent (heap t x) \<noteq> Some x" "parent (heap t x) \<noteq> Some y"
       "parent (heap t x) = None \<or> parent (heap t x) \<noteq> right (heap t y)"
    and dir: "\<And>p. parent (heap t x) = Some p \<Longrightarrow> node_eq t (Some x) (right (heap t p)) = Some xr"
  shows "\<exists>t'. right_rotate t x = Some t' \<and> same_data t t' \<and>
           root t' = (if parent (heap t x) = None then Some y else root t) \<and>
           (\<forall>a. left (heap t' a) =
                  (if a = x then right (heap t y)
                   else if parent (heap t x) = Some a \<and> \<not> xr then Some y
                   else left (heap t a)) \<and>
                right (heap t' a) =
                  (if a = y then Some x
                   else if parent (heap t x) = Some a \<and> xr then Some y
                   else right (heap t a)) \<and>
                parent (heap t' a) =
                  (if a = x then Some y
                   else if a = y then parent (heap t x)
                   else if right (heap t y) = Some a then Some x
                   else parent (heap t a)))"
proof (cases "parent (heap t x)")
  case None
  then show ?thesis using xy b
    by (cases "right (heap t y)")
      (auto simp: right_rotate_def Let_def set_left_def set_right_def set_parent_def same_data_def)
next
  case (Some p)
  have ne: "node_eq t (Some x) (right (heap t p)) = Some xr" using dir Some by simp
  have p: "p \<noteq> x" "p \<noteq> y" "right (heap t y) \<noteq> Some p" using px Some by auto
  show ?thesis
  proof (cases "right (heap t y)")
    case None
    let ?t3 = "set_parent y (Some p) (set_left x None t)"
    have "node_eq ?t3 u v = node_eq t u v" for u v
      by (rule node_eq_data) (simp add: set_parent_def set_left_def)
    moreover have "right (heap ?t3 p) = right (heap t p)"
      using p by (simp add: set_parent_def set_left_def)
    ultimately have "node_eq ?t3 (Some x) (right (heap ?t3 p)) = Some xr"
      using ne by simp
    then show ?thesis using xy b p Some None
      by (cases xr)
        (auto simp: right_rotate_def Let_def set_left_def set_right_def set_parent_def same_data_def)
  next
    case (Some bb)
    let ?t3 = "set_parent y (Some p) (set_parent bb (Some x) (set_left x (Some bb) t))"
    have "node_eq ?t3 u v = node_eq t u v" for u v
      by (rule node_eq_data) (simp add: set_parent_def set_left_def)
    moreover have "right (heap ?t3 p) = right (heap t p)"
      using p by (simp add: set_parent_def set_left_def)
    ultimately have "node_eq ?t3 (Some x) (right (heap ?t3 p)) = Some xr"
      using ne by simp
    then show ?thesis using xy b p Some \<open>parent (heap t x) = Some p\<close>
      by (cases xr)
        (auto simp: right_rotate_def Let_def set_left_def set_right_def set_parent_def same_data_def)
  qed
qed

subsection \<open>A rotation under a way\<close>

text \<open>
  A rotation about a node \<open>x\<close> that a way leads to: the child comes up into the place
  of \<open>x\<close>, the way above stays, and the in-order sequence of the nodes is the same.
\<close>

lemma keys_distinct_refs:
  "distinct (keys_of t s) \<Longrightarrow> distinct (inorder s)"
  by (simp add: keys_of_def distinct_map)

lemma keys_distinct_neq:
  "distinct (keys_of t s) \<Longrightarrow> u \<in> set (inorder s) \<Longrightarrow> v \<in> set (inorder s) \<Longrightarrow> u \<noteq> v \<Longrightarrow>
     key (heap t u) \<noteq> key (heap t v)"
  by (auto simp: keys_of_def distinct_map inj_on_def)

lemma tree_at_link_in:
  "tree_at t par (Some a) s \<Longrightarrow> a \<in> set (inorder s)"
  by (cases s) auto

lemma way_top_in:
  "upper None fs = Some p \<Longrightarrow> p \<in> set (before fs) \<union> set (after fs)"
  by (cases fs rule: before.cases) auto

lemma right_rotate_way:
  assumes w: "way_at t None (root t) fs (Some x)"
    and tr: "tree_at t (upper None fs) (Some x) (Bin (Bin a y b) x c)"
    and d: "distinct (keys_of t (plug fs (Bin (Bin a y b) x c)))"
  shows "\<exists>t'. right_rotate t x = Some t' \<and> same_data t t' \<and>
           way_at t' None (root t') fs (Some y) \<and>
           tree_at t' (upper None fs) (Some y) (Bin a y (Bin b x c))"
proof -
  let ?s = "plug fs (Bin (Bin a y b) x c)"
  let ?others = "set (before fs) \<union> set (after fs)"
  have io: "inorder ?s = before fs @ (inorder a @ y # inorder b) @ x # inorder c @ after fs"
    by (simp add: inorder_plug)
  have dr: "distinct (inorder ?s)" using d by (rule keys_distinct_refs)
  have xy: "x \<noteq> y" using dr io by auto
  have x_out: "x \<notin> ?others" "x \<notin> set (inorder a)" "x \<notin> set (inorder b)" "x \<notin> set (inorder c)"
    and y_out: "y \<notin> ?others" "y \<notin> set (inorder a)" "y \<notin> set (inorder b)" "y \<notin> set (inorder c)"
    using dr io by auto
  have disj: "set (inorder a) \<inter> ?others = {}" "set (inorder b) \<inter> ?others = {}"
    "set (inorder c) \<inter> ?others = {}" "set (inorder a) \<inter> set (inorder b) = {}"
    "set (inorder a) \<inter> set (inorder c) = {}" "set (inorder b) \<inter> set (inorder c) = {}"
    using dr io by auto
  have lx: "left (heap t x) = Some y" and px: "parent (heap t x) = upper None fs"
    and ta: "tree_at t (Some y) (left (heap t y)) a"
    and tb: "tree_at t (Some y) (right (heap t y)) b"
    and tc: "tree_at t (Some x) (right (heap t x)) c"
    and py: "parent (heap t y) = Some x"
    using tr by auto
  have b_in: "right (heap t y) = Some n \<Longrightarrow> n \<in> set (inorder b)" for n
    using tb tree_at_link_in by auto
  have p_in: "parent (heap t x) = Some n \<Longrightarrow> n \<in> ?others" for n
    using px way_top_in[of fs n] by simp
  define xr where "xr = (case fs of RightOf l p # fs' \<Rightarrow> True | _ \<Rightarrow> False)"
  have dir: "node_eq t (Some x) (right (heap t p)) = Some xr" if "parent (heap t x) = Some p" for p
  proof (cases fs rule: before.cases)
    case 1
    then show ?thesis using that px by simp
  next
    case (2 q r fs')
    then have q: "q = p" and tq: "tree_at t (Some p) (right (heap t p)) r"
      using that px w by auto
    show ?thesis
    proof (cases "right (heap t p)")
      case None
      then show ?thesis by (simp add: xr_def 2)
    next
      case (Some n)
      then have "n \<in> set (inorder r)" using tq tree_at_link_in by auto
      then have "n \<in> set (inorder ?s)" "n \<noteq> x" using 2 io x_out by auto
      moreover have "x \<in> set (inorder ?s)" using io by simp
      ultimately have "key (heap t x) \<noteq> key (heap t n)"
        using keys_distinct_neq[OF d] by blast
      then show ?thesis using Some by (simp add: xr_def 2 node_eq_diff)
    qed
  next
    case (3 l q fs')
    then have "right (heap t p) = Some x" using that px w by auto
    then show ?thesis by (simp add: xr_def 3)
  qed
  have pre: "right (heap t y) \<noteq> Some x" "right (heap t y) \<noteq> Some y"
    "parent (heap t x) \<noteq> Some x" "parent (heap t x) \<noteq> Some y"
    "parent (heap t x) = None \<or> parent (heap t x) \<noteq> right (heap t y)"
    using b_in p_in x_out y_out disj by (auto, (metis disjoint_iff option.exhaust)+)
  from right_rotate_effect[OF lx xy pre dir]
  obtain t' where rot: "right_rotate t x = Some t'" and sd: "same_data t t'"
    and rt: "root t' = (if parent (heap t x) = None then Some y else root t)"
    and L: "\<And>n. left (heap t' n) =
                  (if n = x then right (heap t y)
                   else if parent (heap t x) = Some n \<and> \<not> xr then Some y
                   else left (heap t n))"
    and R: "\<And>n. right (heap t' n) =
                  (if n = y then Some x
                   else if parent (heap t x) = Some n \<and> xr then Some y
                   else right (heap t n))"
    and P: "\<And>n. parent (heap t' n) =
                  (if n = x then Some y
                   else if n = y then parent (heap t x)
                   else if right (heap t y) = Some n then Some x
                   else parent (heap t n))"
    by blast
  have same: "same_links t t' n"
    if "n \<noteq> x" "n \<noteq> y" "right (heap t y) \<noteq> Some n" "parent (heap t x) \<noteq> Some n" for n
    using that by (simp add: same_links_def L R P)
  have same_a: "\<forall>n \<in> set (inorder a). same_links t t' n"
    using x_out y_out disj b_in p_in by (intro ballI same) auto
  have same_c: "\<forall>n \<in> set (inorder c). same_links t t' n"
    using x_out y_out disj b_in p_in by (intro ballI same) auto
  have ta': "tree_at t' (Some y) (left (heap t' y)) a"
    using ta tree_at_cong[OF same_a] xy p_in y_out by (auto simp: L)
  have tc': "tree_at t' (Some x) (right (heap t' x)) c"
    using tc tree_at_cong[OF same_c] xy p_in x_out by (auto simp: R)
  have tb': "tree_at t' (Some x) (left (heap t' x)) b"
  proof (cases b)
    case Tip
    then show ?thesis using tb by (simp add: L)
  next
    case (Bin bl bb br)
    have bb: "right (heap t y) = Some bb" "bb \<noteq> x" "bb \<noteq> y" "parent (heap t x) \<noteq> Some bb"
      using tb Bin x_out y_out p_in disj by auto
    have "\<forall>n \<in> set (inorder bl) \<union> set (inorder br). same_links t t' n"
      using x_out y_out disj p_in bb dr io Bin by (intro ballI same) auto
    then have "tree_at t' (Some bb) (left (heap t bb)) bl" "tree_at t' (Some bb) (right (heap t bb)) br"
      using tb Bin tree_at_cong[of bl t t'] tree_at_cong[of br t t'] by auto
    then show ?thesis using bb by (simp add: Bin L R P)
  qed
  have tree: "tree_at t' (upper None fs) (Some y) (Bin a y (Bin b x c))"
    using ta' tb' tc' xy px by (simp add: L R P)
  have way: "way_at t' None (root t') fs (Some y)"
  proof (cases fs rule: before.cases)
    case 1
    then show ?thesis using px rt by simp
  next
    case (2 p r fs')
    have p: "parent (heap t x) = Some p" "p \<noteq> x" "p \<noteq> y" "right (heap t y) \<noteq> Some p" "\<not> xr"
      using px 2 x_out y_out b_in disj by (auto simp: xr_def)
    have wp: "tree_at t (Some p) (right (heap t p)) r" "parent (heap t p) = upper None fs'"
      "way_at t None (root t) fs' (Some p)"
      using w 2 by auto
    have "\<forall>n \<in> set (inorder r). same_links t t' n"
      using x_out y_out disj b_in p dr io 2 by (intro ballI same) auto
    then have 1: "tree_at t' (Some p) (right (heap t p)) r"
      using wp(1) tree_at_cong[of r t t'] by simp
    have "\<forall>n \<in> set (before fs') \<union> set (after fs'). same_links t t' n"
      using x_out y_out disj b_in p dr io 2 by (intro ballI same) auto
    then have 2: "way_at t' None (root t) fs' (Some p)"
      using wp(3) way_at_cong[of fs' t t'] by simp
    show ?thesis using 1 2 p wp(2) rt by (simp add: \<open>fs = _\<close> L R P)
  next
    case (3 l p fs')
    have p: "parent (heap t x) = Some p" "p \<noteq> x" "p \<noteq> y" "right (heap t y) \<noteq> Some p" "xr"
      using px 3 x_out y_out b_in disj by (auto simp: xr_def)
    have wp: "tree_at t (Some p) (left (heap t p)) l" "parent (heap t p) = upper None fs'"
      "way_at t None (root t) fs' (Some p)"
      using w 3 by auto
    have "\<forall>n \<in> set (inorder l). same_links t t' n"
      using x_out y_out disj b_in p dr io 3 by (intro ballI same) auto
    then have 1: "tree_at t' (Some p) (left (heap t p)) l"
      using wp(1) tree_at_cong[of l t t'] by simp
    have "\<forall>n \<in> set (before fs') \<union> set (after fs'). same_links t t' n"
      using x_out y_out disj b_in p dr io 3 by (intro ballI same) auto
    then have 2: "way_at t' None (root t) fs' (Some p)"
      using wp(3) way_at_cong[of fs' t t'] by simp
    show ?thesis using 1 2 p wp(2) rt by (simp add: \<open>fs = _\<close> L R P)
  qed
  show ?thesis using rot sd way tree by blast
qed

subsection \<open>The left rotation\<close>

text \<open>
  The mirror image, for \<open>_left_rotate(x)\<close> and a node \<open>x\<close> with right child \<open>y\<close>.
\<close>

lemma left_rotate_effect:
  assumes xy: "right (heap t x) = Some y" "x \<noteq> y"
    and b: "left (heap t y) \<noteq> Some x" "left (heap t y) \<noteq> Some y"
    and px: "parent (heap t x) \<noteq> Some x" "parent (heap t x) \<noteq> Some y"
       "parent (heap t x) = None \<or> parent (heap t x) \<noteq> left (heap t y)"
    and dir: "\<And>p. parent (heap t x) = Some p \<Longrightarrow> node_eq t (Some x) (left (heap t p)) = Some xl"
  shows "\<exists>t'. left_rotate t x = Some t' \<and> same_data t t' \<and>
           root t' = (if parent (heap t x) = None then Some y else root t) \<and>
           (\<forall>a. right (heap t' a) =
                  (if a = x then left (heap t y)
                   else if parent (heap t x) = Some a \<and> \<not> xl then Some y
                   else right (heap t a)) \<and>
                left (heap t' a) =
                  (if a = y then Some x
                   else if parent (heap t x) = Some a \<and> xl then Some y
                   else left (heap t a)) \<and>
                parent (heap t' a) =
                  (if a = x then Some y
                   else if a = y then parent (heap t x)
                   else if left (heap t y) = Some a then Some x
                   else parent (heap t a)))"
proof (cases "parent (heap t x)")
  case None
  then show ?thesis using xy b
    by (cases "left (heap t y)")
      (auto simp: left_rotate_def Let_def set_left_def set_right_def set_parent_def same_data_def)
next
  case (Some p)
  have ne: "node_eq t (Some x) (left (heap t p)) = Some xl" using dir Some by simp
  have p: "p \<noteq> x" "p \<noteq> y" "left (heap t y) \<noteq> Some p" using px Some by auto
  show ?thesis
  proof (cases "left (heap t y)")
    case None
    let ?t3 = "set_parent y (Some p) (set_right x None t)"
    have "node_eq ?t3 u v = node_eq t u v" for u v
      by (rule node_eq_data) (simp add: set_parent_def set_right_def)
    moreover have "left (heap ?t3 p) = left (heap t p)"
      using p by (simp add: set_parent_def set_right_def)
    ultimately have "node_eq ?t3 (Some x) (left (heap ?t3 p)) = Some xl"
      using ne by simp
    then show ?thesis using xy b p Some None
      by (cases xl)
        (auto simp: left_rotate_def Let_def set_left_def set_right_def set_parent_def same_data_def)
  next
    case (Some bb)
    let ?t3 = "set_parent y (Some p) (set_parent bb (Some x) (set_right x (Some bb) t))"
    have "node_eq ?t3 u v = node_eq t u v" for u v
      by (rule node_eq_data) (simp add: set_parent_def set_right_def)
    moreover have "left (heap ?t3 p) = left (heap t p)"
      using p by (simp add: set_parent_def set_right_def)
    ultimately have "node_eq ?t3 (Some x) (left (heap ?t3 p)) = Some xl"
      using ne by simp
    then show ?thesis using xy b p Some \<open>parent (heap t x) = Some p\<close>
      by (cases xl)
        (auto simp: left_rotate_def Let_def set_left_def set_right_def set_parent_def same_data_def)
  qed
qed

lemma left_rotate_way:
  assumes w: "way_at t None (root t) fs (Some x)"
    and tr: "tree_at t (upper None fs) (Some x) (Bin a x (Bin b y c))"
    and d: "distinct (keys_of t (plug fs (Bin a x (Bin b y c))))"
  shows "\<exists>t'. left_rotate t x = Some t' \<and> same_data t t' \<and>
           way_at t' None (root t') fs (Some y) \<and>
           tree_at t' (upper None fs) (Some y) (Bin (Bin a x b) y c)"
proof -
  let ?s = "plug fs (Bin a x (Bin b y c))"
  let ?others = "set (before fs) \<union> set (after fs)"
  have io: "inorder ?s = before fs @ inorder a @ x # (inorder b @ y # inorder c) @ after fs"
    by (simp add: inorder_plug)
  have dr: "distinct (inorder ?s)" using d by (rule keys_distinct_refs)
  have xy: "x \<noteq> y" using dr io by auto
  have x_out: "x \<notin> ?others" "x \<notin> set (inorder a)" "x \<notin> set (inorder b)" "x \<notin> set (inorder c)"
    and y_out: "y \<notin> ?others" "y \<notin> set (inorder a)" "y \<notin> set (inorder b)" "y \<notin> set (inorder c)"
    using dr io by auto
  have disj: "set (inorder a) \<inter> ?others = {}" "set (inorder b) \<inter> ?others = {}"
    "set (inorder c) \<inter> ?others = {}" "set (inorder a) \<inter> set (inorder b) = {}"
    "set (inorder a) \<inter> set (inorder c) = {}" "set (inorder b) \<inter> set (inorder c) = {}"
    using dr io by auto
  have rx: "right (heap t x) = Some y" and px: "parent (heap t x) = upper None fs"
    and ta: "tree_at t (Some x) (left (heap t x)) a"
    and tb: "tree_at t (Some y) (left (heap t y)) b"
    and tc: "tree_at t (Some y) (right (heap t y)) c"
    and py: "parent (heap t y) = Some x"
    using tr by auto
  have b_in: "left (heap t y) = Some n \<Longrightarrow> n \<in> set (inorder b)" for n
    using tb tree_at_link_in by auto
  have p_in: "parent (heap t x) = Some n \<Longrightarrow> n \<in> ?others" for n
    using px way_top_in[of fs n] by simp
  define xl where "xl = (case fs of LeftOf p r # fs' \<Rightarrow> True | _ \<Rightarrow> False)"
  have dir: "node_eq t (Some x) (left (heap t p)) = Some xl" if "parent (heap t x) = Some p" for p
  proof (cases fs rule: before.cases)
    case 1
    then show ?thesis using that px by simp
  next
    case (2 q r fs')
    then have "left (heap t p) = Some x" using that px w by auto
    then show ?thesis by (simp add: xl_def 2)
  next
    case (3 l q fs')
    then have q: "q = p" and tq: "tree_at t (Some p) (left (heap t p)) l"
      using that px w by auto
    show ?thesis
    proof (cases "left (heap t p)")
      case None
      then show ?thesis by (simp add: xl_def 3)
    next
      case (Some n)
      then have "n \<in> set (inorder l)" using tq tree_at_link_in by auto
      then have "n \<in> set (inorder ?s)" "n \<noteq> x" using 3 io x_out by auto
      moreover have "x \<in> set (inorder ?s)" using io by simp
      ultimately have "key (heap t x) \<noteq> key (heap t n)"
        using keys_distinct_neq[OF d] by blast
      then show ?thesis using Some by (simp add: xl_def 3 node_eq_diff)
    qed
  qed
  have pre: "left (heap t y) \<noteq> Some x" "left (heap t y) \<noteq> Some y"
    "parent (heap t x) \<noteq> Some x" "parent (heap t x) \<noteq> Some y"
    "parent (heap t x) = None \<or> parent (heap t x) \<noteq> left (heap t y)"
    using b_in p_in x_out y_out disj by (auto, (metis disjoint_iff option.exhaust)+)
  from left_rotate_effect[OF rx xy pre dir]
  obtain t' where rot: "left_rotate t x = Some t'" and sd: "same_data t t'"
    and rt: "root t' = (if parent (heap t x) = None then Some y else root t)"
    and R: "\<And>n. right (heap t' n) =
                  (if n = x then left (heap t y)
                   else if parent (heap t x) = Some n \<and> \<not> xl then Some y
                   else right (heap t n))"
    and L: "\<And>n. left (heap t' n) =
                  (if n = y then Some x
                   else if parent (heap t x) = Some n \<and> xl then Some y
                   else left (heap t n))"
    and P: "\<And>n. parent (heap t' n) =
                  (if n = x then Some y
                   else if n = y then parent (heap t x)
                   else if left (heap t y) = Some n then Some x
                   else parent (heap t n))"
    by blast
  have same: "same_links t t' n"
    if "n \<noteq> x" "n \<noteq> y" "left (heap t y) \<noteq> Some n" "parent (heap t x) \<noteq> Some n" for n
    using that by (simp add: same_links_def L R P)
  have same_a: "\<forall>n \<in> set (inorder a). same_links t t' n"
    using x_out y_out disj b_in p_in by (intro ballI same) auto
  have same_c: "\<forall>n \<in> set (inorder c). same_links t t' n"
    using x_out y_out disj b_in p_in by (intro ballI same) auto
  have ta': "tree_at t' (Some x) (left (heap t' x)) a"
    using ta tree_at_cong[OF same_a] xy p_in x_out by (auto simp: L)
  have tc': "tree_at t' (Some y) (right (heap t' y)) c"
    using tc tree_at_cong[OF same_c] xy p_in y_out by (auto simp: R)
  have tb': "tree_at t' (Some x) (right (heap t' x)) b"
  proof (cases b)
    case Tip
    then show ?thesis using tb by (simp add: R)
  next
    case (Bin bl bb br)
    have bb: "left (heap t y) = Some bb" "bb \<noteq> x" "bb \<noteq> y" "parent (heap t x) \<noteq> Some bb"
      using tb Bin x_out y_out p_in disj by auto
    have "\<forall>n \<in> set (inorder bl) \<union> set (inorder br). same_links t t' n"
      using x_out y_out disj p_in bb dr io Bin by (intro ballI same) auto
    then have "tree_at t' (Some bb) (left (heap t bb)) bl" "tree_at t' (Some bb) (right (heap t bb)) br"
      using tb Bin tree_at_cong[of bl t t'] tree_at_cong[of br t t'] by auto
    then show ?thesis using bb by (simp add: Bin L R P)
  qed
  have tree: "tree_at t' (upper None fs) (Some y) (Bin (Bin a x b) y c)"
    using ta' tb' tc' xy px by (simp add: L R P)
  have way: "way_at t' None (root t') fs (Some y)"
  proof (cases fs rule: before.cases)
    case 1
    then show ?thesis using px rt by simp
  next
    case (2 p r fs')
    have p: "parent (heap t x) = Some p" "p \<noteq> x" "p \<noteq> y" "left (heap t y) \<noteq> Some p" "xl"
      using px 2 x_out y_out b_in disj by (auto simp: xl_def)
    have wp: "tree_at t (Some p) (right (heap t p)) r" "parent (heap t p) = upper None fs'"
      "way_at t None (root t) fs' (Some p)"
      using w 2 by auto
    have "\<forall>n \<in> set (inorder r). same_links t t' n"
      using x_out y_out disj b_in p dr io 2 by (intro ballI same) auto
    then have 1: "tree_at t' (Some p) (right (heap t p)) r"
      using wp(1) tree_at_cong[of r t t'] by simp
    have "\<forall>n \<in> set (before fs') \<union> set (after fs'). same_links t t' n"
      using x_out y_out disj b_in p dr io 2 by (intro ballI same) auto
    then have 2: "way_at t' None (root t) fs' (Some p)"
      using wp(3) way_at_cong[of fs' t t'] by simp
    show ?thesis using 1 2 p wp(2) rt by (simp add: \<open>fs = _\<close> L R P)
  next
    case (3 l p fs')
    have p: "parent (heap t x) = Some p" "p \<noteq> x" "p \<noteq> y" "left (heap t y) \<noteq> Some p" "\<not> xl"
      using px 3 x_out y_out b_in disj by (auto simp: xl_def)
    have wp: "tree_at t (Some p) (left (heap t p)) l" "parent (heap t p) = upper None fs'"
      "way_at t None (root t) fs' (Some p)"
      using w 3 by auto
    have "\<forall>n \<in> set (inorder l). same_links t t' n"
      using x_out y_out disj b_in p dr io 3 by (intro ballI same) auto
    then have 1: "tree_at t' (Some p) (left (heap t p)) l"
      using wp(1) tree_at_cong[of l t t'] by simp
    have "\<forall>n \<in> set (before fs') \<union> set (after fs'). same_links t t' n"
      using x_out y_out disj b_in p dr io 3 by (intro ballI same) auto
    then have 2: "way_at t' None (root t) fs' (Some p)"
      using wp(3) way_at_cong[of fs' t t'] by simp
    show ?thesis using 1 2 p wp(2) rt by (simp add: \<open>fs = _\<close> L R P)
  qed
  show ?thesis using rot sd way tree by blast
qed

subsection \<open>One round of splaying\<close>

text \<open>
  The six cases of a round of the loop of \<open>_splay\<close>: zig, zig-zig and zig-zag, each on
  either side.  Each shortens the way above \<open>x\<close> by one or two steps.
\<close>

lemma keys_of_same:
  "same_data t t' \<Longrightarrow> inorder s' = inorder s \<Longrightarrow> keys_of t' s' = keys_of t s"
  by (simp add: keys_of_def same_data_def)

lemma same_data_refl [simp]: "same_data t t"
  by (simp add: same_data_def)

lemma same_data_trans: "same_data t t1 \<Longrightarrow> same_data t1 t2 \<Longrightarrow> same_data t t2"
  by (simp add: same_data_def)

lemma node_eq_sub:
  assumes "tree_at t par q s" "x \<notin> set (inorder s)" "distinct (keys_of t w)"
    "set (inorder s) \<subseteq> set (inorder w)" "x \<in> set (inorder w)"
  shows "node_eq t q (Some x) = Some False"
proof (cases q)
  case None
  then show ?thesis by simp
next
  case (Some n)
  then have "n \<in> set (inorder s)" using assms(1) tree_at_link_in by auto
  then have "n \<in> set (inorder w)" "n \<noteq> x" using assms by auto
  then have "key (heap t n) \<noteq> key (heap t x)"
    using keys_distinct_neq[OF assms(3)] assms(5) by blast
  then show ?thesis using Some by (simp add: node_eq_diff)
qed

lemma py_and_simps [simp]:
  "py_and (Some True) b = b" "py_and (Some False) b = Some False"
  by (simp_all add: py_and_def)

lemma splay_step_zig_left:
  assumes w: "way_at t None (root t) [LeftOf p pr] (Some x)"
    and tr: "tree_at t (Some p) (Some x) (Bin l x r)"
    and d: "distinct (keys_of t (plug [LeftOf p pr] (Bin l x r)))"
  shows "\<exists>t1. splay_step t x p = Some t1 \<and> same_data t t1 \<and>
           way_at t1 None (root t1) [] (Some x) \<and>
           tree_at t1 None (Some x) (Bin l x (Bin r p pr))"
proof -
  have pp: "parent (heap t p) = None" "left (heap t p) = Some x" using w by auto
  have "way_at t None (root t) [] (Some p)" "tree_at t (upper None []) (Some p) (Bin (Bin l x r) p pr)"
    using w tr by auto
  from right_rotate_way[OF this] d
  obtain t1 where "right_rotate t p = Some t1" "same_data t t1"
    "way_at t1 None (root t1) [] (Some x)" "tree_at t1 (upper None []) (Some x) (Bin l x (Bin r p pr))"
    by auto
  then show ?thesis using pp by (auto simp: splay_step_def)
qed

lemma splay_step_zig_right:
  assumes w: "way_at t None (root t) [RightOf pl p] (Some x)"
    and tr: "tree_at t (Some p) (Some x) (Bin l x r)"
    and d: "distinct (keys_of t (plug [RightOf pl p] (Bin l x r)))"
  shows "\<exists>t1. splay_step t x p = Some t1 \<and> same_data t t1 \<and>
           way_at t1 None (root t1) [] (Some x) \<and>
           tree_at t1 None (Some x) (Bin (Bin pl p l) x r)"
proof -
  have pp: "parent (heap t p) = None" "right (heap t p) = Some x"
    "tree_at t (Some p) (left (heap t p)) pl" using w by auto
  have xo: "x \<notin> set (inorder pl)" using keys_distinct_refs[OF d] by auto
  have ne: "node_eq t (left (heap t p)) (Some x) = Some False"
    by (rule node_eq_sub[OF pp(3) xo d]) auto
  have "way_at t None (root t) [] (Some p)" "tree_at t (upper None []) (Some p) (Bin pl p (Bin l x r))"
    using w tr by auto
  from left_rotate_way[OF this] d
  obtain t1 where "left_rotate t p = Some t1" "same_data t t1"
    "way_at t1 None (root t1) [] (Some x)" "tree_at t1 (upper None []) (Some x) (Bin (Bin pl p l) x r)"
    by auto
  then show ?thesis using pp ne by (auto simp: splay_step_def)
qed

lemma splay_step_zigzig_left:
  assumes w: "way_at t None (root t) (LeftOf p pr # LeftOf g gr # fs) (Some x)"
    and tr: "tree_at t (Some p) (Some x) (Bin l x r)"
    and d: "distinct (keys_of t (plug (LeftOf p pr # LeftOf g gr # fs) (Bin l x r)))"
  shows "\<exists>t2. splay_step t x p = Some t2 \<and> same_data t t2 \<and>
           way_at t2 None (root t2) fs (Some x) \<and>
           tree_at t2 (upper None fs) (Some x) (Bin l x (Bin r p (Bin pr g gr)))"
proof -
  have pp: "parent (heap t p) = Some g" "left (heap t p) = Some x" "left (heap t g) = Some p"
    using w by auto
  have "way_at t None (root t) fs (Some g)"
    "tree_at t (upper None fs) (Some g) (Bin (Bin (Bin l x r) p pr) g gr)"
    using w tr by auto
  from right_rotate_way[OF this] d
  obtain t1 where r1: "right_rotate t g = Some t1" "same_data t t1"
    "way_at t1 None (root t1) fs (Some p)"
    "tree_at t1 (upper None fs) (Some p) (Bin (Bin l x r) p (Bin pr g gr))"
    by auto
  have px: "parent (heap t1 x) = Some p" using r1(4) by simp
  have d1: "distinct (keys_of t1 (plug fs (Bin (Bin l x r) p (Bin pr g gr))))"
    using d keys_of_same[OF r1(2), of "plug fs (Bin (Bin l x r) p (Bin pr g gr))"
        "plug (LeftOf p pr # LeftOf g gr # fs) (Bin l x r)"]
    by (simp add: inorder_plug)
  from right_rotate_way[OF r1(3,4) d1]
  obtain t2 where r2: "right_rotate t1 p = Some t2" "same_data t1 t2"
    "way_at t2 None (root t2) fs (Some x)"
    "tree_at t2 (upper None fs) (Some x) (Bin l x (Bin r p (Bin pr g gr)))"
    by auto
  show ?thesis
    using pp r1(1) px r2 same_data_trans[OF r1(2) r2(2)]
    by (auto simp: splay_step_def right_rotate_parent_def)
qed

lemma splay_step_zigzig_right:
  assumes w: "way_at t None (root t) (RightOf pl p # RightOf gl g # fs) (Some x)"
    and tr: "tree_at t (Some p) (Some x) (Bin l x r)"
    and d: "distinct (keys_of t (plug (RightOf pl p # RightOf gl g # fs) (Bin l x r)))"
  shows "\<exists>t2. splay_step t x p = Some t2 \<and> same_data t t2 \<and>
           way_at t2 None (root t2) fs (Some x) \<and>
           tree_at t2 (upper None fs) (Some x) (Bin (Bin (Bin gl g pl) p l) x r)"
proof -
  let ?w = "plug (RightOf pl p # RightOf gl g # fs) (Bin l x r)"
  have pp: "parent (heap t p) = Some g" "right (heap t p) = Some x" "right (heap t g) = Some p"
    "tree_at t (Some p) (left (heap t p)) pl"
    using w by auto
  have xo: "x \<notin> set (inorder pl)" using keys_distinct_refs[OF d] by (auto simp: inorder_plug)
  have ne: "node_eq t (left (heap t p)) (Some x) = Some False"
    by (rule node_eq_sub[OF pp(4) xo d]) (auto simp: inorder_plug)
  have "way_at t None (root t) fs (Some g)"
    "tree_at t (upper None fs) (Some g) (Bin gl g (Bin pl p (Bin l x r)))"
    using w tr by auto
  from left_rotate_way[OF this] d
  obtain t1 where r1: "left_rotate t g = Some t1" "same_data t t1"
    "way_at t1 None (root t1) fs (Some p)"
    "tree_at t1 (upper None fs) (Some p) (Bin (Bin gl g pl) p (Bin l x r))"
    by auto
  have px: "parent (heap t1 x) = Some p" using r1(4) by simp
  have d1: "distinct (keys_of t1 (plug fs (Bin (Bin gl g pl) p (Bin l x r))))"
    using d keys_of_same[OF r1(2), of "plug fs (Bin (Bin gl g pl) p (Bin l x r))" ?w]
    by (simp add: inorder_plug)
  from left_rotate_way[OF r1(3,4) d1]
  obtain t2 where r2: "left_rotate t1 p = Some t2" "same_data t1 t2"
    "way_at t2 None (root t2) fs (Some x)"
    "tree_at t2 (upper None fs) (Some x) (Bin (Bin (Bin gl g pl) p l) x r)"
    by auto
  show ?thesis
    using pp ne r1(1) px r2 same_data_trans[OF r1(2) r2(2)]
    by (auto simp: splay_step_def left_rotate_parent_def)
qed

lemma splay_step_zigzag_left:
  assumes w: "way_at t None (root t) (LeftOf p pr # RightOf gl g # fs) (Some x)"
    and tr: "tree_at t (Some p) (Some x) (Bin l x r)"
    and d: "distinct (keys_of t (plug (LeftOf p pr # RightOf gl g # fs) (Bin l x r)))"
  shows "\<exists>t2. splay_step t x p = Some t2 \<and> same_data t t2 \<and>
           way_at t2 None (root t2) fs (Some x) \<and>
           tree_at t2 (upper None fs) (Some x) (Bin (Bin gl g l) x (Bin r p pr))"
proof -
  let ?w = "plug (LeftOf p pr # RightOf gl g # fs) (Bin l x r)"
  have pp: "parent (heap t p) = Some g" "left (heap t p) = Some x" "right (heap t g) = Some p"
    "tree_at t (Some p) (right (heap t p)) pr" "tree_at t (Some g) (left (heap t g)) gl"
    using w by auto
  have dr: "distinct (inorder ?w)" using d by (rule keys_distinct_refs)
  have xo: "x \<notin> set (inorder pr)" "p \<notin> set (inorder gl)"
    using dr by (auto simp: inorder_plug)
  have ne1: "node_eq t (right (heap t p)) (Some x) = Some False"
    by (rule node_eq_sub[OF pp(4) xo(1) d]) (auto simp: inorder_plug)
  have ne2: "node_eq t (left (heap t g)) (Some p) = Some False"
    by (rule node_eq_sub[OF pp(5) xo(2) d]) (auto simp: inorder_plug)
  have "way_at t None (root t) (RightOf gl g # fs) (Some p)"
    "tree_at t (upper None (RightOf gl g # fs)) (Some p) (Bin (Bin l x r) p pr)"
    using w tr by auto
  from right_rotate_way[OF this] d
  obtain t1 where r1: "right_rotate t p = Some t1" "same_data t t1"
    "way_at t1 None (root t1) (RightOf gl g # fs) (Some x)"
    "tree_at t1 (upper None (RightOf gl g # fs)) (Some x) (Bin l x (Bin r p pr))"
    by auto
  have px: "parent (heap t1 x) = Some g" using r1(4) by simp
  have f: "way_at t1 None (root t1) fs (Some g)"
    "tree_at t1 (upper None fs) (Some g) (Bin gl g (Bin l x (Bin r p pr)))"
    using r1(3,4) by auto
  have d1: "distinct (keys_of t1 (plug fs (Bin gl g (Bin l x (Bin r p pr)))))"
    using d keys_of_same[OF r1(2), of "plug fs (Bin gl g (Bin l x (Bin r p pr)))" ?w]
    by (simp add: inorder_plug)
  from left_rotate_way[OF f d1]
  obtain t2 where r2: "left_rotate t1 g = Some t2" "same_data t1 t2"
    "way_at t2 None (root t2) fs (Some x)"
    "tree_at t2 (upper None fs) (Some x) (Bin (Bin gl g l) x (Bin r p pr))"
    by auto
  show ?thesis
    using pp(1-3) ne1 ne2 r1(1) px r2 same_data_trans[OF r1(2) r2(2)]
    by (auto simp: splay_step_def left_rotate_parent_def)
qed

lemma splay_step_zigzag_right:
  assumes w: "way_at t None (root t) (RightOf pl p # LeftOf g gr # fs) (Some x)"
    and tr: "tree_at t (Some p) (Some x) (Bin l x r)"
    and d: "distinct (keys_of t (plug (RightOf pl p # LeftOf g gr # fs) (Bin l x r)))"
  shows "\<exists>t2. splay_step t x p = Some t2 \<and> same_data t t2 \<and>
           way_at t2 None (root t2) fs (Some x) \<and>
           tree_at t2 (upper None fs) (Some x) (Bin (Bin pl p l) x (Bin r g gr))"
proof -
  let ?w = "plug (RightOf pl p # LeftOf g gr # fs) (Bin l x r)"
  have pp: "parent (heap t p) = Some g" "right (heap t p) = Some x" "left (heap t g) = Some p"
    "tree_at t (Some p) (left (heap t p)) pl" "tree_at t (Some g) (right (heap t g)) gr"
    using w by auto
  have dr: "distinct (inorder ?w)" using d by (rule keys_distinct_refs)
  have xo: "x \<notin> set (inorder pl)" "p \<notin> set (inorder gr)"
    using dr by (auto simp: inorder_plug)
  have ne1: "node_eq t (left (heap t p)) (Some x) = Some False"
    by (rule node_eq_sub[OF pp(4) xo(1) d]) (auto simp: inorder_plug)
  have ne2: "node_eq t (right (heap t g)) (Some p) = Some False"
    by (rule node_eq_sub[OF pp(5) xo(2) d]) (auto simp: inorder_plug)
  have "way_at t None (root t) (LeftOf g gr # fs) (Some p)"
    "tree_at t (upper None (LeftOf g gr # fs)) (Some p) (Bin pl p (Bin l x r))"
    using w tr by auto
  from left_rotate_way[OF this] d
  obtain t1 where r1: "left_rotate t p = Some t1" "same_data t t1"
    "way_at t1 None (root t1) (LeftOf g gr # fs) (Some x)"
    "tree_at t1 (upper None (LeftOf g gr # fs)) (Some x) (Bin (Bin pl p l) x r)"
    by auto
  have px: "parent (heap t1 x) = Some g" using r1(4) by simp
  have f: "way_at t1 None (root t1) fs (Some g)"
    "tree_at t1 (upper None fs) (Some g) (Bin (Bin (Bin pl p l) x r) g gr)"
    using r1(3,4) by auto
  have d1: "distinct (keys_of t1 (plug fs (Bin (Bin (Bin pl p l) x r) g gr)))"
    using d keys_of_same[OF r1(2), of "plug fs (Bin (Bin (Bin pl p l) x r) g gr)" ?w]
    by (simp add: inorder_plug)
  from right_rotate_way[OF f d1]
  obtain t2 where r2: "right_rotate t1 g = Some t2" "same_data t1 t2"
    "way_at t2 None (root t2) fs (Some x)"
    "tree_at t2 (upper None fs) (Some x) (Bin (Bin pl p l) x (Bin r g gr))"
    by auto
  show ?thesis
    using pp(1-3) ne1 ne2 r1(1) px r2 same_data_trans[OF r1(2) r2(2)]
    by (auto simp: splay_step_def right_rotate_parent_def)
qed

lemma splay_step_way:
  assumes w: "way_at t None (root t) (f # fs) (Some x)"
    and tr: "tree_at t (upper None (f # fs)) (Some x) (Bin l x r)"
    and d: "distinct (keys_of t (plug (f # fs) (Bin l x r)))"
  shows "\<exists>t1 fs1 l1 r1. splay_step t x (step_node f) = Some t1 \<and> same_data t t1 \<and>
           length fs1 < length (f # fs) \<and>
           way_at t1 None (root t1) fs1 (Some x) \<and>
           tree_at t1 (upper None fs1) (Some x) (Bin l1 x r1) \<and>
           inorder (plug fs1 (Bin l1 x r1)) = inorder (plug (f # fs) (Bin l x r))"
proof (cases f)
  case f: (LeftOf p pr)
  show ?thesis
  proof (cases fs)
    case Nil
    from splay_step_zig_left[of t p pr x l r] w tr d obtain t1 where
      "splay_step t x p = Some t1" "same_data t t1" "way_at t1 None (root t1) [] (Some x)"
      "tree_at t1 None (Some x) (Bin l x (Bin r p pr))"
      by (auto simp: f Nil)
    then show ?thesis
      by (intro exI[of _ t1] exI[of _ "[]"] exI[of _ l] exI[of _ "Bin r p pr"]) (simp add: f Nil)
  next
    case (Cons f2 fs')
    show ?thesis
    proof (cases f2)
      case g: (LeftOf g gr)
      from splay_step_zigzig_left[of t p pr g gr fs' x l r] w tr d obtain t1 where
        "splay_step t x p = Some t1" "same_data t t1" "way_at t1 None (root t1) fs' (Some x)"
        "tree_at t1 (upper None fs') (Some x) (Bin l x (Bin r p (Bin pr g gr)))"
        by (auto simp: f Cons g)
      then show ?thesis
        by (intro exI[of _ t1] exI[of _ fs'] exI[of _ l] exI[of _ "Bin r p (Bin pr g gr)"])
          (simp add: f Cons g inorder_plug)
    next
      case g: (RightOf gl g)
      from splay_step_zigzag_left[of t p pr gl g fs' x l r] w tr d obtain t1 where
        "splay_step t x p = Some t1" "same_data t t1" "way_at t1 None (root t1) fs' (Some x)"
        "tree_at t1 (upper None fs') (Some x) (Bin (Bin gl g l) x (Bin r p pr))"
        by (auto simp: f Cons g)
      then show ?thesis
        by (intro exI[of _ t1] exI[of _ fs'] exI[of _ "Bin gl g l"] exI[of _ "Bin r p pr"])
          (simp add: f Cons g inorder_plug)
    qed
  qed
next
  case f: (RightOf pl p)
  show ?thesis
  proof (cases fs)
    case Nil
    from splay_step_zig_right[of t pl p x l r] w tr d obtain t1 where
      "splay_step t x p = Some t1" "same_data t t1" "way_at t1 None (root t1) [] (Some x)"
      "tree_at t1 None (Some x) (Bin (Bin pl p l) x r)"
      by (auto simp: f Nil)
    then show ?thesis
      by (intro exI[of _ t1] exI[of _ "[]"] exI[of _ "Bin pl p l"] exI[of _ r]) (simp add: f Nil)
  next
    case (Cons f2 fs')
    show ?thesis
    proof (cases f2)
      case g: (LeftOf g gr)
      from splay_step_zigzag_right[of t pl p g gr fs' x l r] w tr d obtain t1 where
        "splay_step t x p = Some t1" "same_data t t1" "way_at t1 None (root t1) fs' (Some x)"
        "tree_at t1 (upper None fs') (Some x) (Bin (Bin pl p l) x (Bin r g gr))"
        by (auto simp: f Cons g)
      then show ?thesis
        by (intro exI[of _ t1] exI[of _ fs'] exI[of _ "Bin pl p l"] exI[of _ "Bin r g gr"])
          (simp add: f Cons g inorder_plug)
    next
      case g: (RightOf gl g)
      from splay_step_zigzig_right[of t pl p gl g fs' x l r] w tr d obtain t1 where
        "splay_step t x p = Some t1" "same_data t t1" "way_at t1 None (root t1) fs' (Some x)"
        "tree_at t1 (upper None fs') (Some x) (Bin (Bin (Bin gl g pl) p l) x r)"
        by (auto simp: f Cons g)
      then show ?thesis
        by (intro exI[of _ t1] exI[of _ fs'] exI[of _ "Bin (Bin gl g pl) p l"] exI[of _ r])
          (simp add: f Cons g inorder_plug)
    qed
  qed
qed

subsection \<open>Splaying brings the node to the root\<close>

text \<open>
  By induction on the length of the way: the loop ends, with \<open>x\<close> at the root and the
  nodes in the same in-order sequence.
\<close>

lemma splay_way:
  assumes "way_at t None (root t) fs (Some x)"
    and "tree_at t (upper None fs) (Some x) (Bin l x r)"
    and "distinct (keys_of t (plug fs (Bin l x r)))"
  shows "\<exists>t' l' r'. splay t x = Some t' \<and> same_data t t' \<and> root t' = Some x \<and>
           tree_at t' None (Some x) (Bin l' x r') \<and>
           inorder (Bin l' x r') = inorder (plug fs (Bin l x r))"
  using assms
proof (induction "length fs" arbitrary: fs t l r rule: less_induct)
  case less
  show ?case
  proof (cases fs)
    case Nil
    then have "root t = Some x" "parent (heap t x) = None"
      using less.prems by auto
    then have "splay t x = Some t" by (subst splay.simps) simp
    then show ?thesis using less.prems Nil \<open>root t = Some x\<close>
      by (intro exI[of _ t] exI[of _ l] exI[of _ r]) simp
  next
    case (Cons f fs0)
    have px: "parent (heap t x) = Some (step_node f)"
      using less.prems(2) Cons by simp
    from splay_step_way[of t f fs0 x l r] less.prems Cons
    obtain t1 fs1 l1 r1 where st: "splay_step t x (step_node f) = Some t1" "same_data t t1"
      "length fs1 < length fs"
      "way_at t1 None (root t1) fs1 (Some x)"
      "tree_at t1 (upper None fs1) (Some x) (Bin l1 x r1)"
      "inorder (plug fs1 (Bin l1 x r1)) = inorder (plug fs (Bin l x r))"
      by auto
    have d1: "distinct (keys_of t1 (plug fs1 (Bin l1 x r1)))"
      using less.prems(3) keys_of_same[OF st(2) st(6)] by simp
    from less.hyps[OF st(3,4,5) d1]
    obtain t' l' r' where r: "splay t1 x = Some t'" "same_data t1 t'" "root t' = Some x"
      "tree_at t' None (Some x) (Bin l' x r')"
      "inorder (Bin l' x r') = inorder (plug fs1 (Bin l1 x r1))"
      by blast
    have "splay t x = Some t'"
      using px st(1) r(1) by (subst splay.simps) simp
    then show ?thesis
      using r st(6) same_data_trans[OF st(2) r(2)]
      by (intro exI[of _ t'] exI[of _ l'] exI[of _ r']) simp
  qed
qed

subsection \<open>The descent of a lookup\<close>

text \<open>
  The loop of \<open>_find_node\<close> goes down a way on which every node left of the subtree has a
  smaller key than \<open>k\<close> and every node right of it a larger one.
\<close>

lemma sorted_distinct_keys: "sorted_wrt (<) (keys_of t s) \<Longrightarrow> distinct (keys_of t s)"
  by (simp add: strict_sorted_iff)

lemma keys_of_plug:
  "keys_of t (plug fs s) =
     map (\<lambda>a. key (heap t a)) (before fs) @ keys_of t s @ map (\<lambda>a. key (heap t a)) (after fs)"
  by (simp add: keys_of_def inorder_plug)

lemma find_loop_way:
  assumes "way_at t None (root t) fs (Some n)"
    and "tree_at t (upper None fs) (Some n) sub"
    and "sorted_wrt (<) (keys_of t (plug fs sub))"
    and "\<forall>a \<in> set (before fs). key (heap t a) < k"
    and "\<forall>a \<in> set (after fs). k < key (heap t a)"
  shows "\<exists>t' s' res x. find_loop t k (Some n) = Some (res, t') \<and> same_data t t' \<and>
           tree_at t' None (root t') s' \<and> inorder s' = inorder (plug fs sub) \<and>
           root t' = Some x \<and> last_visited t k sub = Some x \<and>
           x \<in> set (inorder sub) \<and>
           (if k \<in> set (keys_of t (plug fs sub)) then res = Some x \<and> key (heap t x) = k
            else res = None)"
  using assms
proof (induction sub arbitrary: fs n)
  case Tip
  then show ?case by simp
next
  case (Bin l m r)
  have m: "m = n" using Bin.prems(2) by simp
  let ?w = "plug fs (Bin l n r)"
  have tl: "tree_at t (Some n) (left (heap t n)) l" and trr: "tree_at t (Some n) (right (heap t n)) r"
    using Bin.prems(2) m by auto
  have srt: "sorted_wrt (<) (keys_of t ?w)" using Bin.prems(3) m by simp
  have d: "distinct (keys_of t ?w)" using srt by (rule sorted_distinct_keys)
  have kl: "\<forall>a \<in> set (inorder l). key (heap t a) < key (heap t n)"
    and kr: "\<forall>a \<in> set (inorder r). key (heap t n) < key (heap t a)"
    using srt unfolding keys_of_plug by (auto simp: keys_of_def sorted_wrt_append)
  have splay_n: "\<exists>t' s'. splay t n = Some t' \<and> same_data t t' \<and> root t' = Some n \<and>
           tree_at t' None (root t') s' \<and> inorder s' = inorder ?w"
  proof -
    have "tree_at t (upper None fs) (Some n) (Bin l n r)" using Bin.prems(2) m by simp
    from splay_way[OF Bin.prems(1) this d]
    obtain t' l' r' where "splay t n = Some t'" "same_data t t'" "root t' = Some n"
      "tree_at t' None (Some n) (Bin l' n r')" "inorder (Bin l' n r') = inorder ?w" by blast
    then show ?thesis by (intro exI[of _ t'] exI[of _ "Bin l' n r'"]) simp
  qed
  consider (eq) "k = key (heap t n)" | (lt) "k < key (heap t n)" | (gt) "key (heap t n) < k"
    by linarith
  then show ?case
  proof cases
    case eq
    from splay_n obtain t' s' where s: "splay t n = Some t'" "same_data t t'" "root t' = Some n"
      "tree_at t' None (root t') s'" "inorder s' = inorder ?w" by blast
    have "find_loop t k (Some n) = Some (Some n, t')"
      using eq s(1) by (subst find_loop.simps) simp
    moreover have "k \<in> set (keys_of t ?w)" using eq unfolding keys_of_plug by (simp add: keys_of_def)
    ultimately show ?thesis using s eq m
      by (intro exI[of _ t'] exI[of _ s'] exI[of _ "Some n"] exI[of _ n]) simp
  next
    case lt
    show ?thesis
    proof (cases l)
      case Tip
      then have ln: "left (heap t n) = None" using tl by simp
      from splay_n obtain t' s' where s: "splay t n = Some t'" "same_data t t'" "root t' = Some n"
        "tree_at t' None (root t') s'" "inorder s' = inorder ?w" by blast
      have "find_loop t k (Some n) = Some (None, t')"
        using lt ln s(1) by (subst find_loop.simps) simp
      moreover have "k \<notin> set (keys_of t ?w)"
        using lt kr Bin.prems(4,5) Tip unfolding keys_of_plug by (auto simp: keys_of_def)
      ultimately show ?thesis using s lt m Tip
        by (intro exI[of _ t'] exI[of _ s'] exI[of _ None] exI[of _ n]) simp
    next
      case (Bin ll c lr)
      then have ln: "left (heap t n) = Some c" using tl by simp
      have w': "way_at t None (root t) (LeftOf n r # fs) (Some c)"
        using Bin.prems(1,2) m ln by simp
      have t': "tree_at t (upper None (LeftOf n r # fs)) (Some c) l"
        using tl ln by simp
      have s': "sorted_wrt (<) (keys_of t (plug (LeftOf n r # fs) l))"
        using srt by simp
      have b': "\<forall>a \<in> set (before (LeftOf n r # fs)). key (heap t a) < k"
        using Bin.prems(4) by simp
      have a': "\<forall>a \<in> set (after (LeftOf n r # fs)). k < key (heap t a)"
        using Bin.prems(5) lt kr by auto
      from Bin.IH(1)[OF w' t' s' b' a']
      obtain t1 s1 res x where r: "find_loop t k (Some c) = Some (res, t1)" "same_data t t1"
        "tree_at t1 None (root t1) s1" "inorder s1 = inorder (plug (LeftOf n r # fs) l)"
        "root t1 = Some x" "last_visited t k l = Some x" "x \<in> set (inorder l)"
        "(if k \<in> set (keys_of t (plug (LeftOf n r # fs) l)) then res = Some x \<and> key (heap t x) = k
            else res = None)" by blast
      have "find_loop t k (Some n) = Some (res, t1)"
        using lt ln r(1) by (subst find_loop.simps) simp
      then show ?thesis using r lt m \<open>l = _\<close>
        by (intro exI[of _ t1] exI[of _ s1] exI[of _ res] exI[of _ x]) auto
    qed
  next
    case gt
    show ?thesis
    proof (cases r)
      case Tip
      then have rn: "right (heap t n) = None" using trr by simp
      from splay_n obtain t' s' where s: "splay t n = Some t'" "same_data t t'" "root t' = Some n"
        "tree_at t' None (root t') s'" "inorder s' = inorder ?w" by blast
      have "find_loop t k (Some n) = Some (None, t')"
        using gt rn s(1) by (subst find_loop.simps) simp
      moreover have "k \<notin> set (keys_of t ?w)"
        using gt kl Bin.prems(4,5) Tip unfolding keys_of_plug by (auto simp: keys_of_def)
      ultimately show ?thesis using s gt m Tip
        by (intro exI[of _ t'] exI[of _ s'] exI[of _ None] exI[of _ n]) simp
    next
      case (Bin rl c rr)
      then have rn: "right (heap t n) = Some c" using trr by simp
      have w': "way_at t None (root t) (RightOf l n # fs) (Some c)"
        using Bin.prems(1,2) m rn by simp
      have t': "tree_at t (upper None (RightOf l n # fs)) (Some c) r"
        using trr rn by simp
      have s': "sorted_wrt (<) (keys_of t (plug (RightOf l n # fs) r))"
        using srt by simp
      have b': "\<forall>a \<in> set (before (RightOf l n # fs)). key (heap t a) < k"
        using Bin.prems(4) gt kl by auto
      have a': "\<forall>a \<in> set (after (RightOf l n # fs)). k < key (heap t a)"
        using Bin.prems(5) by simp
      from Bin.IH(2)[OF w' t' s' b' a']
      obtain t1 s1 res x where r: "find_loop t k (Some c) = Some (res, t1)" "same_data t t1"
        "tree_at t1 None (root t1) s1" "inorder s1 = inorder (plug (RightOf l n # fs) r)"
        "root t1 = Some x" "last_visited t k r = Some x" "x \<in> set (inorder r)"
        "(if k \<in> set (keys_of t (plug (RightOf l n # fs) r)) then res = Some x \<and> key (heap t x) = k
            else res = None)" by blast
      have "find_loop t k (Some n) = Some (res, t1)"
        using gt rn r(1) by (subst find_loop.simps) simp
      then show ?thesis using r gt m \<open>r = _\<close>
        by (intro exI[of _ t1] exI[of _ s1] exI[of _ res] exI[of _ x]) auto
    qed
  qed
qed

subsection \<open>The descent of an insertion\<close>

text \<open>
  Overwriting a value changes no link; a new leaf hangs under the node at which the
  descent found the child missing.
\<close>

lemma set_val_links: "same_links t (set_val n v t) a"
  by (simp add: same_links_def set_val_def)

lemma splay_set_val:
  assumes w: "way_at t None (root t) fs (Some n)"
    and tr: "tree_at t (upper None fs) (Some n) (Bin l n r)"
    and d: "distinct (keys_of t (plug fs (Bin l n r)))"
  shows "\<exists>t' s'. splay (set_val n v t) n = Some t' \<and> tree_at t' None (root t') s' \<and>
           root t' = Some n \<and> inorder s' = inorder (plug fs (Bin l n r)) \<and> fresh t' = fresh t \<and>
           (\<forall>a. key (heap t' a) = key (heap t a)) \<and> val (heap t' n) = v \<and>
           (\<forall>a. a \<noteq> n \<longrightarrow> val (heap t' a) = val (heap t a))"
proof -
  let ?t = "set_val n v t"
  have rt: "root ?t = root t" by (simp add: set_val_def)
  have w': "way_at ?t None (root ?t) fs (Some n)"
    using w way_at_cong[of fs t ?t None "root t" "Some n"] set_val_links rt by simp
  have tr': "tree_at ?t (upper None fs) (Some n) (Bin l n r)"
    using tr tree_at_cong[of "Bin l n r" t ?t] set_val_links by blast
  have k: "keys_of ?t s = keys_of t s" for s
    by (simp add: keys_of_def set_val_def)
  from splay_way[OF w' tr'] d k
  obtain t' l' r' where s: "splay ?t n = Some t'" "same_data ?t t'" "root t' = Some n"
    "tree_at t' None (Some n) (Bin l' n r')"
    "inorder (Bin l' n r') = inorder (plug fs (Bin l n r))" by auto
  show ?thesis
    using s by (intro exI[of _ t'] exI[of _ "Bin l' n r'"]) (auto simp: same_data_def set_val_def)
qed

lemma attach_left:
  assumes w: "way_at t None (root t) fs (Some n)"
    and tr: "tree_at t (upper None fs) (Some n) (Bin Tip n r)"
    and fr: "\<forall>a \<in> set (inorder (plug fs (Bin Tip n r))). a < fresh t"
    and d: "distinct (inorder (plug fs (Bin Tip n r)))"
    and t2: "t2 = set_left n (Some (fresh t)) (snd (new_node k v (Some n) t))"
  shows "way_at t2 None (root t2) (LeftOf n r # fs) (Some (fresh t)) \<and>
         tree_at t2 (Some n) (Some (fresh t)) (Bin Tip (fresh t) Tip) \<and>
         left (heap t2 n) = Some (fresh t) \<and> fresh t2 = Suc (fresh t) \<and>
         heap t2 (fresh t) = \<lparr>key = k, val = v, left = None, right = None, parent = Some n\<rparr> \<and>
         (\<forall>a. a \<noteq> fresh t \<longrightarrow> key (heap t2 a) = key (heap t a) \<and> val (heap t2 a) = val (heap t a))"
proof -
  let ?x = "fresh t"
  have io: "inorder (plug fs (Bin Tip n r)) = before fs @ n # inorder r @ after fs"
    by (simp add: inorder_plug)
  have xn: "?x \<noteq> n" and x_out: "?x \<notin> set (before fs) \<union> set (after fs)" "?x \<notin> set (inorder r)"
    using fr io by auto
  have n_out: "n \<notin> set (before fs) \<union> set (after fs)" "n \<notin> set (inorder r)"
    using d io by auto
  have h: "heap t2 a = (if a = n then (heap t n)\<lparr>left := Some ?x\<rparr>
        else if a = ?x then \<lparr>key = k, val = v, left = None, right = None, parent = Some n\<rparr>
        else heap t a)" for a
    using xn by (simp add: t2 set_left_def new_node_def)
  have same: "same_links t t2 a" if "a \<noteq> n" "a \<noteq> ?x" for a
    using that by (simp add: same_links_def h)
  have rt: "root t2 = root t" "fresh t2 = Suc (fresh t)"
    by (simp_all add: t2 set_left_def new_node_def)
  have "\<forall>a \<in> set (inorder r). same_links t t2 a"
    using x_out n_out by (intro ballI same) auto
  then have r': "tree_at t2 (Some n) (right (heap t n)) r"
    using tr tree_at_cong[of r t t2] by simp
  have "\<forall>a \<in> set (before fs) \<union> set (after fs). same_links t t2 a"
    using x_out n_out by (intro ballI same) auto
  then have w': "way_at t2 None (root t) fs (Some n)"
    using w way_at_cong[of fs t t2] by simp
  have pn: "parent (heap t n) = upper None fs" using tr by simp
  show ?thesis using r' w' pn xn rt by (simp add: h)
qed

lemma attach_right:
  assumes w: "way_at t None (root t) fs (Some n)"
    and tr: "tree_at t (upper None fs) (Some n) (Bin l n Tip)"
    and fr: "\<forall>a \<in> set (inorder (plug fs (Bin l n Tip))). a < fresh t"
    and d: "distinct (inorder (plug fs (Bin l n Tip)))"
    and t2: "t2 = set_right n (Some (fresh t)) (snd (new_node k v (Some n) t))"
  shows "way_at t2 None (root t2) (RightOf l n # fs) (Some (fresh t)) \<and>
         tree_at t2 (Some n) (Some (fresh t)) (Bin Tip (fresh t) Tip) \<and>
         right (heap t2 n) = Some (fresh t) \<and> fresh t2 = Suc (fresh t) \<and>
         heap t2 (fresh t) = \<lparr>key = k, val = v, left = None, right = None, parent = Some n\<rparr> \<and>
         (\<forall>a. a \<noteq> fresh t \<longrightarrow> key (heap t2 a) = key (heap t a) \<and> val (heap t2 a) = val (heap t a))"
proof -
  let ?x = "fresh t"
  have io: "inorder (plug fs (Bin l n Tip)) = before fs @ inorder l @ n # after fs"
    by (simp add: inorder_plug)
  have xn: "?x \<noteq> n" and x_out: "?x \<notin> set (before fs) \<union> set (after fs)" "?x \<notin> set (inorder l)"
    using fr io by auto
  have n_out: "n \<notin> set (before fs) \<union> set (after fs)" "n \<notin> set (inorder l)"
    using d io by auto
  have h: "heap t2 a = (if a = n then (heap t n)\<lparr>right := Some ?x\<rparr>
        else if a = ?x then \<lparr>key = k, val = v, left = None, right = None, parent = Some n\<rparr>
        else heap t a)" for a
    using xn by (simp add: t2 set_right_def new_node_def)
  have same: "same_links t t2 a" if "a \<noteq> n" "a \<noteq> ?x" for a
    using that by (simp add: same_links_def h)
  have rt: "root t2 = root t" "fresh t2 = Suc (fresh t)"
    by (simp_all add: t2 set_right_def new_node_def)
  have "\<forall>a \<in> set (inorder l). same_links t t2 a"
    using x_out n_out by (intro ballI same) auto
  then have l': "tree_at t2 (Some n) (left (heap t n)) l"
    using tr tree_at_cong[of l t t2] by simp
  have "\<forall>a \<in> set (before fs) \<union> set (after fs). same_links t t2 a"
    using x_out n_out by (intro ballI same) auto
  then have w': "way_at t2 None (root t) fs (Some n)"
    using w way_at_cong[of fs t t2] by simp
  have pn: "parent (heap t n) = upper None fs" using tr by simp
  show ?thesis using l' w' pn xn rt by (simp add: h)
qed

lemma insert_loop_way:
  assumes "way_at t None (root t) fs (Some n)"
    and "tree_at t (upper None fs) (Some n) sub"
    and "sorted_wrt (<) (keys_of t (plug fs sub))"
    and "\<forall>a \<in> set (before fs). key (heap t a) < k"
    and "\<forall>a \<in> set (after fs). k < key (heap t a)"
    and "\<forall>a \<in> set (inorder (plug fs sub)). a < fresh t"
  shows "\<exists>t' s' x. insert_loop t k v n = Some t' \<and> tree_at t' None (root t') s' \<and>
           ins_post t k v (plug fs sub) t' s' x"
  using assms
proof (induction sub arbitrary: fs n)
  case Tip
  then show ?case by simp
next
  case (Bin l m r)
  have m: "m = n" using Bin.prems(2) by simp
  let ?w = "plug fs (Bin l n r)"
  have trn: "tree_at t (upper None fs) (Some n) (Bin l n r)" using Bin.prems(2) m by simp
  have tl: "tree_at t (Some n) (left (heap t n)) l" and trr: "tree_at t (Some n) (right (heap t n)) r"
    using trn by auto
  have srt: "sorted_wrt (<) (keys_of t ?w)" using Bin.prems(3) m by simp
  have d: "distinct (keys_of t ?w)" using srt by (rule sorted_distinct_keys)
  have dr: "distinct (inorder ?w)" using d by (rule keys_distinct_refs)
  have fr: "\<forall>a \<in> set (inorder ?w). a < fresh t" using Bin.prems(6) m by simp
  have kl: "\<forall>a \<in> set (inorder l). key (heap t a) < key (heap t n)"
    and kr: "\<forall>a \<in> set (inorder r). key (heap t n) < key (heap t a)"
    using srt unfolding keys_of_plug by (auto simp: keys_of_def sorted_wrt_append)
  consider (eq) "k = key (heap t n)" | (lt) "k < key (heap t n)" | (gt) "key (heap t n) < k"
    by linarith
  then show ?case
  proof cases
    case eq
    from splay_set_val[OF Bin.prems(1) trn d, of v]
    obtain t' s' where s: "splay (set_val n v t) n = Some t'" "tree_at t' None (root t') s'"
      "root t' = Some n" "inorder s' = inorder ?w" "fresh t' = fresh t"
      "\<forall>a. key (heap t' a) = key (heap t a)" "val (heap t' n) = v"
      "\<forall>a. a \<noteq> n \<longrightarrow> val (heap t' a) = val (heap t a)" by blast
    have il: "insert_loop t k v n = Some t'"
      using eq s(1) by (subst insert_loop.simps) simp
    have kin: "k \<in> set (keys_of t ?w)" using eq unfolding keys_of_plug by (simp add: keys_of_def)
    have "ins_post t k v ?w t' s' n"
      using s kin eq by (simp add: ins_post_def inorder_plug)
    then show ?thesis using il s(2) m by blast
  next
    case lt
    show ?thesis
    proof (cases l)
      case Tip
      then have ln: "left (heap t n) = None" using tl by simp
      let ?x = "fresh t"
      define t2 where "t2 = set_left n (Some ?x) (snd (new_node k v (Some n) t))"
      have trn': "tree_at t (upper None fs) (Some n) (Bin Tip n r)" using trn Tip by simp
      have fr': "\<forall>a \<in> set (inorder (plug fs (Bin Tip n r))). a < fresh t" using fr Tip by simp
      have dr': "distinct (inorder (plug fs (Bin Tip n r)))" using dr Tip by simp
      from attach_left[OF Bin.prems(1) trn' fr' dr' t2_def]
      have a: "way_at t2 None (root t2) (LeftOf n r # fs) (Some ?x)"
        "tree_at t2 (Some n) (Some ?x) (Bin Tip ?x Tip)"
        "left (heap t2 n) = Some ?x" "fresh t2 = Suc ?x"
        "heap t2 ?x = \<lparr>key = k, val = v, left = None, right = None, parent = Some n\<rparr>"
        "\<forall>a. a \<noteq> ?x \<longrightarrow> key (heap t2 a) = key (heap t a) \<and> val (heap t2 a) = val (heap t a)"
        by auto
      let ?w2 = "plug (LeftOf n r # fs) (Bin Tip ?x Tip)"
      have io2: "inorder ?w2 = before fs @ ?x # n # inorder r @ after fs"
        by (simp add: inorder_plug)
      have x_out: "?x \<notin> set (inorder ?w)" using fr by auto
      have k2: "map (\<lambda>a. key (heap t2 a)) zs = map (\<lambda>a. key (heap t a)) zs"
        if "set zs \<subseteq> set (inorder ?w)" for zs
      proof (rule map_cong[OF refl])
        fix z assume "z \<in> set zs"
        then have "z \<noteq> ?x" using that x_out by blast
        then show "key (heap t2 z) = key (heap t z)" using a(6) by simp
      qed
      have s0: "sorted_wrt (<) (map (\<lambda>a. key (heap t a)) (before fs) @
           (key (heap t n) # map (\<lambda>a. key (heap t a)) (inorder r)) @
            map (\<lambda>a. key (heap t a)) (after fs))"
        using srt Tip unfolding keys_of_plug by (simp add: keys_of_def)
      have "sorted_wrt (<) (map (\<lambda>a. key (heap t a)) (before fs) @
           (k # key (heap t n) # map (\<lambda>a. key (heap t a)) (inorder r)) @
            map (\<lambda>a. key (heap t a)) (after fs))"
      proof -
        have "\<forall>a \<in> set (inorder r). k < key (heap t a)" using lt kr by force
        then show ?thesis using s0 lt Bin.prems(4,5) by (auto simp: sorted_wrt_append)
      qed
      moreover have "keys_of t2 ?w2 = map (\<lambda>a. key (heap t a)) (before fs) @
           (k # key (heap t n) # map (\<lambda>a. key (heap t a)) (inorder r)) @
            map (\<lambda>a. key (heap t a)) (after fs)"
      proof -
        have e: "map (\<lambda>a. key (heap t2 a)) (before fs) = map (\<lambda>a. key (heap t a)) (before fs)"
          "map (\<lambda>a. key (heap t2 a)) (n # inorder r) = map (\<lambda>a. key (heap t a)) (n # inorder r)"
          "map (\<lambda>a. key (heap t2 a)) (after fs) = map (\<lambda>a. key (heap t a)) (after fs)"
          by (rule k2; auto simp: inorder_plug)+
        have "keys_of t2 ?w2 = map (\<lambda>a. key (heap t2 a)) (before fs) @
            key (heap t2 ?x) # map (\<lambda>a. key (heap t2 a)) (n # inorder r) @
            map (\<lambda>a. key (heap t2 a)) (after fs)"
          by (simp add: keys_of_def inorder_plug)
        also have "\<dots> = map (\<lambda>a. key (heap t a)) (before fs) @
            key (heap t2 ?x) # map (\<lambda>a. key (heap t a)) (n # inorder r) @
            map (\<lambda>a. key (heap t a)) (after fs)"
          unfolding e ..
        finally show ?thesis using a(5) by simp
      qed
      ultimately have "sorted_wrt (<) (keys_of t2 ?w2)" by (simp only:)
      then have d2: "distinct (keys_of t2 ?w2)" by (rule sorted_distinct_keys)
      have tr2: "tree_at t2 (upper None (LeftOf n r # fs)) (Some ?x) (Bin Tip ?x Tip)"
        using a(2) by simp
      from splay_way[OF a(1) tr2 d2]
      obtain t' l' r' where s: "splay t2 ?x = Some t'" "same_data t2 t'" "root t' = Some ?x"
        "tree_at t' None (Some ?x) (Bin l' ?x r')"
        "inorder (Bin l' ?x r') = inorder ?w2" by blast
      have il: "insert_loop t k v n = Some t'"
        using lt ln s(1) a(3) by (subst insert_loop.simps) (simp add: t2_def new_node_def)
      have nk: "k \<notin> set (keys_of t ?w)"
        using lt kr Bin.prems(4,5) Tip unfolding keys_of_plug by (auto simp: keys_of_def)
      have p1: "root t' = Some ?x \<and> key (heap t' ?x) = k \<and> val (heap t' ?x) = v \<and>
          fresh t' = Suc ?x"
        using s(2,3) a(4,5) by (simp add: same_data_def)
      have p2: "\<forall>a. a \<noteq> ?x \<longrightarrow> key (heap t' a) = key (heap t a) \<and> val (heap t' a) = val (heap t a)"
        using s(2) a(6) by (simp add: same_data_def)
      have "\<forall>a \<in> set (n # inorder r @ after fs). k < key (heap t a)"
        using lt kr Bin.prems(5) by force
      then have p3: "\<exists>xs ys. inorder ?w = xs @ ys \<and> inorder (Bin l' ?x r') = xs @ ?x # ys \<and>
               (\<forall>a \<in> set xs. key (heap t a) < k) \<and> (\<forall>a \<in> set ys. k < key (heap t a))"
        using s(5) io2 Tip Bin.prems(4)
        by (intro exI[of _ "before fs"] exI[of _ "n # inorder r @ after fs"]) (simp add: inorder_plug)
      have "ins_post t k v ?w t' (Bin l' ?x r') ?x"
        unfolding ins_post_def using p1 p2 p3 nk by simp
      then show ?thesis using il s(3,4) m by (intro exI[of _ t'] exI[of _ "Bin l' ?x r'"] exI[of _ ?x]) simp
    next
      case (Bin ll c lr)
      then have ln: "left (heap t n) = Some c" using tl by simp
      have w': "way_at t None (root t) (LeftOf n r # fs) (Some c)"
        using Bin.prems(1) trn ln by simp
      have t': "tree_at t (upper None (LeftOf n r # fs)) (Some c) l"
        using tl ln by simp
      have s': "sorted_wrt (<) (keys_of t (plug (LeftOf n r # fs) l))"
        using srt by simp
      have b': "\<forall>a \<in> set (before (LeftOf n r # fs)). key (heap t a) < k"
        using Bin.prems(4) by simp
      have a': "\<forall>a \<in> set (after (LeftOf n r # fs)). k < key (heap t a)"
        using Bin.prems(5) lt kr by auto
      have f': "\<forall>a \<in> set (inorder (plug (LeftOf n r # fs) l)). a < fresh t"
        using fr by simp
      from Bin.IH(1)[OF w' t' s' b' a' f']
      obtain t1 s1 x where r: "insert_loop t k v c = Some t1" "tree_at t1 None (root t1) s1"
        "ins_post t k v (plug (LeftOf n r # fs) l) t1 s1 x" by blast
      have "insert_loop t k v n = Some t1"
        using lt ln r(1) by (subst insert_loop.simps) simp
      then show ?thesis using r m by (intro exI[of _ t1] exI[of _ s1] exI[of _ x]) simp
    qed
  next
    case gt
    show ?thesis
    proof (cases r)
      case Tip
      then have rn: "right (heap t n) = None" using trr by simp
      let ?x = "fresh t"
      define t2 where "t2 = set_right n (Some ?x) (snd (new_node k v (Some n) t))"
      have trn': "tree_at t (upper None fs) (Some n) (Bin l n Tip)" using trn Tip by simp
      have fr': "\<forall>a \<in> set (inorder (plug fs (Bin l n Tip))). a < fresh t" using fr Tip by simp
      have dr': "distinct (inorder (plug fs (Bin l n Tip)))" using dr Tip by simp
      from attach_right[OF Bin.prems(1) trn' fr' dr' t2_def]
      have a: "way_at t2 None (root t2) (RightOf l n # fs) (Some ?x)"
        "tree_at t2 (Some n) (Some ?x) (Bin Tip ?x Tip)"
        "right (heap t2 n) = Some ?x" "fresh t2 = Suc ?x"
        "heap t2 ?x = \<lparr>key = k, val = v, left = None, right = None, parent = Some n\<rparr>"
        "\<forall>a. a \<noteq> ?x \<longrightarrow> key (heap t2 a) = key (heap t a) \<and> val (heap t2 a) = val (heap t a)"
        by auto
      let ?w2 = "plug (RightOf l n # fs) (Bin Tip ?x Tip)"
      have io2: "inorder ?w2 = before fs @ inorder l @ n # ?x # after fs"
        by (simp add: inorder_plug)
      have x_out: "?x \<notin> set (inorder ?w)" using fr by auto
      have k2: "map (\<lambda>a. key (heap t2 a)) zs = map (\<lambda>a. key (heap t a)) zs"
        if "set zs \<subseteq> set (inorder ?w)" for zs
      proof (rule map_cong[OF refl])
        fix z assume "z \<in> set zs"
        then have "z \<noteq> ?x" using that x_out by blast
        then show "key (heap t2 z) = key (heap t z)" using a(6) by simp
      qed
      have s0: "sorted_wrt (<) (map (\<lambda>a. key (heap t a)) (before fs) @
           (map (\<lambda>a. key (heap t a)) (inorder l) @ [key (heap t n)]) @
            map (\<lambda>a. key (heap t a)) (after fs))"
        using srt Tip unfolding keys_of_plug by (simp add: keys_of_def)
      have "sorted_wrt (<) (map (\<lambda>a. key (heap t a)) (before fs) @
           (map (\<lambda>a. key (heap t a)) (inorder l) @ [key (heap t n), k]) @
            map (\<lambda>a. key (heap t a)) (after fs))"
      proof -
        have "\<forall>a \<in> set (inorder l). key (heap t a) < k" using gt kl by force
        then show ?thesis using s0 gt Bin.prems(4,5) by (auto simp: sorted_wrt_append)
      qed
      moreover have "keys_of t2 ?w2 = map (\<lambda>a. key (heap t a)) (before fs) @
           (map (\<lambda>a. key (heap t a)) (inorder l) @ [key (heap t n), k]) @
            map (\<lambda>a. key (heap t a)) (after fs)"
      proof -
        have e: "map (\<lambda>a. key (heap t2 a)) (before fs) = map (\<lambda>a. key (heap t a)) (before fs)"
          "map (\<lambda>a. key (heap t2 a)) (inorder l @ [n]) = map (\<lambda>a. key (heap t a)) (inorder l @ [n])"
          "map (\<lambda>a. key (heap t2 a)) (after fs) = map (\<lambda>a. key (heap t a)) (after fs)"
          by (rule k2; auto simp: inorder_plug)+
        have "keys_of t2 ?w2 = map (\<lambda>a. key (heap t2 a)) (before fs) @
            map (\<lambda>a. key (heap t2 a)) (inorder l @ [n]) @ key (heap t2 ?x) #
            map (\<lambda>a. key (heap t2 a)) (after fs)"
          by (simp add: keys_of_def inorder_plug)
        also have "\<dots> = map (\<lambda>a. key (heap t a)) (before fs) @
            map (\<lambda>a. key (heap t a)) (inorder l @ [n]) @ key (heap t2 ?x) #
            map (\<lambda>a. key (heap t a)) (after fs)"
          unfolding e ..
        finally show ?thesis using a(5) by simp
      qed
      ultimately have "sorted_wrt (<) (keys_of t2 ?w2)" by (simp only:)
      then have d2: "distinct (keys_of t2 ?w2)" by (rule sorted_distinct_keys)
      have tr2: "tree_at t2 (upper None (RightOf l n # fs)) (Some ?x) (Bin Tip ?x Tip)"
        using a(2) by simp
      from splay_way[OF a(1) tr2 d2]
      obtain t' l' r' where s: "splay t2 ?x = Some t'" "same_data t2 t'" "root t' = Some ?x"
        "tree_at t' None (Some ?x) (Bin l' ?x r')"
        "inorder (Bin l' ?x r') = inorder ?w2" by blast
      have il: "insert_loop t k v n = Some t'"
        using gt rn s(1) a(3) by (subst insert_loop.simps) (simp add: t2_def new_node_def)
      have nk: "k \<notin> set (keys_of t ?w)"
        using gt kl Bin.prems(4,5) Tip unfolding keys_of_plug by (auto simp: keys_of_def)
      have p1: "root t' = Some ?x \<and> key (heap t' ?x) = k \<and> val (heap t' ?x) = v \<and>
          fresh t' = Suc ?x"
        using s(2,3) a(4,5) by (simp add: same_data_def)
      have p2: "\<forall>a. a \<noteq> ?x \<longrightarrow> key (heap t' a) = key (heap t a) \<and> val (heap t' a) = val (heap t a)"
        using s(2) a(6) by (simp add: same_data_def)
      have "\<forall>a \<in> set (before fs @ inorder l @ [n]). key (heap t a) < k"
        using gt kl Bin.prems(4) by force
      then have p3: "\<exists>xs ys. inorder ?w = xs @ ys \<and> inorder (Bin l' ?x r') = xs @ ?x # ys \<and>
               (\<forall>a \<in> set xs. key (heap t a) < k) \<and> (\<forall>a \<in> set ys. k < key (heap t a))"
        using s(5) io2 Tip Bin.prems(5)
        by (intro exI[of _ "before fs @ inorder l @ [n]"] exI[of _ "after fs"]) (simp add: inorder_plug)
      have "ins_post t k v ?w t' (Bin l' ?x r') ?x"
        unfolding ins_post_def using p1 p2 p3 nk by simp
      then show ?thesis using il s(3,4) m by (intro exI[of _ t'] exI[of _ "Bin l' ?x r'"] exI[of _ ?x]) simp
    next
      case (Bin rl c rr)
      then have rn: "right (heap t n) = Some c" using trr by simp
      have w': "way_at t None (root t) (RightOf l n # fs) (Some c)"
        using Bin.prems(1) trn rn by simp
      have t': "tree_at t (upper None (RightOf l n # fs)) (Some c) r"
        using trr rn by simp
      have s': "sorted_wrt (<) (keys_of t (plug (RightOf l n # fs) r))"
        using srt by simp
      have b': "\<forall>a \<in> set (before (RightOf l n # fs)). key (heap t a) < k"
        using Bin.prems(4) gt kl by auto
      have a': "\<forall>a \<in> set (after (RightOf l n # fs)). k < key (heap t a)"
        using Bin.prems(5) by simp
      have f': "\<forall>a \<in> set (inorder (plug (RightOf l n # fs) r)). a < fresh t"
        using fr by simp
      from Bin.IH(2)[OF w' t' s' b' a' f']
      obtain t1 s1 x where r: "insert_loop t k v c = Some t1" "tree_at t1 None (root t1) s1"
        "ins_post t k v (plug (RightOf l n # fs) r) t1 s1 x" by blast
      have "insert_loop t k v n = Some t1"
        using gt rn r(1) by (subst insert_loop.simps) simp
      then show ?thesis using r m by (intro exI[of _ t1] exI[of _ s1] exI[of _ x]) simp
    qed
  qed
qed

subsection \<open>Whole trees\<close>

text \<open>
  Every node of a tree has a way up to the root.  From there: splaying, lookup,
  insertion and the rotations on a state that holds a binary search tree, and runs of
  calls from the empty tree.
\<close>

lemma plug_append: "plug (fs @ gs) s = plug gs (plug fs s)"
  by (induction fs s rule: plug.induct) auto

lemma upper_snoc: "upper par (fs @ [f]) = upper (Some (step_node f)) fs"
  by (cases fs) auto

lemma way_at_snoc_left:
  "way_at t par rt (fs @ [LeftOf a r]) c \<longleftrightarrow>
     rt = Some a \<and> parent (heap t a) = par \<and> tree_at t (Some a) (right (heap t a)) r \<and>
     way_at t (Some a) (left (heap t a)) fs c"
proof (induction fs arbitrary: c)
  case Nil
  then show ?case by auto
next
  case (Cons f fs)
  then show ?case by (cases f) (auto simp: upper_snoc)
qed

lemma way_at_snoc_right:
  "way_at t par rt (fs @ [RightOf l a]) c \<longleftrightarrow>
     rt = Some a \<and> parent (heap t a) = par \<and> tree_at t (Some a) (left (heap t a)) l \<and>
     way_at t (Some a) (right (heap t a)) fs c"
proof (induction fs arbitrary: c)
  case Nil
  then show ?case by auto
next
  case (Cons f fs)
  then show ?case by (cases f) (auto simp: upper_snoc)
qed

lemma focus:
  "tree_at t par p s \<Longrightarrow> x \<in> set (inorder s) \<Longrightarrow>
     \<exists>fs l r. s = plug fs (Bin l x r) \<and> way_at t par p fs (Some x) \<and>
              tree_at t (upper par fs) (Some x) (Bin l x r)"
proof (induction s arbitrary: par p)
  case Tip
  then show ?case by simp
next
  case (Bin l a r)
  consider (here) "x = a" | (inl) "x \<in> set (inorder l)" | (inr) "x \<in> set (inorder r)"
    using Bin.prems(2) by auto
  then show ?case
  proof cases
    case here
    then show ?thesis using Bin.prems(1)
      by (intro exI[of _ "[]"] exI[of _ l] exI[of _ r]) simp
  next
    case inl
    from Bin.IH(1)[OF _ inl, of "Some a" "left (heap t a)"] Bin.prems(1)
    obtain fs l' r' where f: "l = plug fs (Bin l' x r')" "way_at t (Some a) (left (heap t a)) fs (Some x)"
      "tree_at t (upper (Some a) fs) (Some x) (Bin l' x r')" by auto
    show ?thesis
      using f Bin.prems(1)
      by (intro exI[of _ "fs @ [LeftOf a r]"] exI[of _ l'] exI[of _ r'])
        (simp add: plug_append way_at_snoc_left upper_snoc)
  next
    case inr
    from Bin.IH(2)[OF _ inr, of "Some a" "right (heap t a)"] Bin.prems(1)
    obtain fs l' r' where f: "r = plug fs (Bin l' x r')" "way_at t (Some a) (right (heap t a)) fs (Some x)"
      "tree_at t (upper (Some a) fs) (Some x) (Bin l' x r')" by auto
    show ?thesis
      using f Bin.prems(1)
      by (intro exI[of _ "fs @ [RightOf l a]"] exI[of _ l'] exI[of _ r'])
        (simp add: plug_append way_at_snoc_right upper_snoc)
  qed
qed

lemma tree_at_unique:
  "tree_at t par p s \<Longrightarrow> tree_at t par p s' \<Longrightarrow> s = s'"
proof (induction s arbitrary: par p s')
  case Tip
  then show ?case by (cases s') auto
next
  case (Bin l a r)
  then show ?case by (cases s') auto
qed

lemma entries_keys: "map fst (entries_of t s) = keys_of t s"
  by (simp add: entries_of_def keys_of_def comp_def)

lemma entries_same:
  "same_data t t' \<Longrightarrow> inorder s' = inorder s \<Longrightarrow> entries_of t' s' = entries_of t s"
  by (simp add: entries_of_def same_data_def)

lemma bst_same:
  "bst t s \<Longrightarrow> same_data t t' \<Longrightarrow> tree_at t' None (root t') s' \<Longrightarrow> inorder s' = inorder s \<Longrightarrow>
     bst t' s'"
  using keys_of_same[of t t' s' s] by (simp add: bst_def same_data_def)

lemma splay_bst:
  assumes "bst t s" "x \<in> set (inorder s)"
  shows "\<exists>t' s'. splay t x = Some t' \<and> same_data t t' \<and> root t' = Some x \<and> bst t' s' \<and>
           inorder s' = inorder s"
proof -
  have tr: "tree_at t None (root t) s" and srt: "sorted_wrt (<) (keys_of t s)"
    using assms(1) by (auto simp: bst_def)
  from focus[OF tr assms(2)] obtain fs l r where f: "s = plug fs (Bin l x r)"
    "way_at t None (root t) fs (Some x)" "tree_at t (upper None fs) (Some x) (Bin l x r)" by blast
  have d: "distinct (keys_of t (plug fs (Bin l x r)))"
    using srt f(1) sorted_distinct_keys by simp
  from splay_way[OF f(2,3) d] obtain t' l' r' where s: "splay t x = Some t'" "same_data t t'"
    "root t' = Some x" "tree_at t' None (Some x) (Bin l' x r')"
    "inorder (Bin l' x r') = inorder (plug fs (Bin l x r))" by blast
  have "bst t' (Bin l' x r')"
    using bst_same[OF assms(1) s(2), of "Bin l' x r'"] s(3,4,5) f(1) by simp
  then show ?thesis using s f(1) by (intro exI[of _ t'] exI[of _ "Bin l' x r'"]) simp
qed

lemma get_bst:
  assumes "bst t s"
  shows "\<exists>t' s'. SplayTree_get t k = Some (map_of (entries_of t s) k, t') \<and> bst t' s' \<and>
           same_data t t' \<and> inorder s' = inorder s \<and> root t' = last_visited t k s \<and>
           (s = Tip \<longrightarrow> t' = t)"
proof (cases s)
  case Tip
  then have "root t = None" using assms by (simp add: bst_def)
  then have "find_loop t k (root t) = Some (None, t)" by (subst find_loop.simps) simp
  then show ?thesis using assms Tip \<open>root t = None\<close>
    by (intro exI[of _ t] exI[of _ s]) (simp add: SplayTree_get_def find_node_def entries_of_def)
next
  case (Bin l n r)
  have tr: "tree_at t None (root t) s" and srt: "sorted_wrt (<) (keys_of t s)"
    using assms by (auto simp: bst_def)
  have rt: "root t = Some n" using tr Bin by simp
  have 1: "way_at t None (root t) [] (Some n)" using rt by simp
  have 2: "tree_at t (upper None []) (Some n) s" using tr rt by simp
  have 3: "sorted_wrt (<) (keys_of t (plug [] s))" using srt by simp
  from find_loop_way[OF 1 2 3, of k]
  obtain t' s' res x where f: "find_loop t k (Some n) = Some (res, t')" "same_data t t'"
    "tree_at t' None (root t') s'" "inorder s' = inorder s"
    "root t' = Some x" "last_visited t k s = Some x" "x \<in> set (inorder s)"
    "if k \<in> set (keys_of t s) then res = Some x \<and> key (heap t x) = k else res = None"
    by auto
  have b: "bst t' s'" using bst_same[OF assms f(2,3,4)] .
  have d: "distinct (map fst (entries_of t s))"
    using srt sorted_distinct_keys by (simp add: entries_keys)
  have v: "(case res of None \<Rightarrow> None | Some a \<Rightarrow> Some (val (heap t' a))) = map_of (entries_of t s) k"
  proof (cases "k \<in> set (keys_of t s)")
    case True
    then have r: "res = Some x" "key (heap t x) = k" using f(8) by auto
    have "(k, val (heap t x)) \<in> set (entries_of t s)"
      using f(7) r(2) by (auto simp: entries_of_def)
    then have "map_of (entries_of t s) k = Some (val (heap t x))"
      by (rule map_of_is_SomeI[OF d])
    then show ?thesis using r f(2) by (simp add: same_data_def)
  next
    case False
    then have "res = None" using f(8) by simp
    moreover have "map_of (entries_of t s) k = None"
      using False by (simp add: map_of_eq_None_iff entries_keys[symmetric] del: entries_keys)
    ultimately show ?thesis by simp
  qed
  have "SplayTree_get t k = Some (map_of (entries_of t s) k, t')"
    using f(1) rt v by (simp add: SplayTree_get_def find_node_def)
  then show ?thesis using b f Bin by (intro exI[of _ t'] exI[of _ s']) simp
qed

lemma sorted_insert_middle:
  assumes "sorted_wrt (<) (map f (xs @ ys))" "\<forall>a \<in> set xs. f a < k" "\<forall>a \<in> set ys. k < f a"
  shows "sorted_wrt (<) (map f xs @ k # map f ys)"
  using assms by (auto simp: sorted_wrt_append)

lemma ins_post_bst:
  assumes b: "bst t s" and tr: "tree_at t' None (root t') s'" and p: "ins_post t k v s t' s' x"
  shows "bst t' s'"
proof (cases "k \<in> set (keys_of t s)")
  case True
  then have io: "inorder s' = inorder s" and fr: "fresh t' = fresh t"
    and kx: "key (heap t x) = k" "key (heap t' x) = k"
    and ka: "\<forall>a. a \<noteq> x \<longrightarrow> key (heap t' a) = key (heap t a)"
    using p by (auto simp: ins_post_def)
  have "key (heap t' a) = key (heap t a)" for a
    using kx ka by (cases "a = x") auto
  then have "keys_of t' s' = keys_of t s" by (simp add: keys_of_def io)
  then show ?thesis using b tr io fr by (simp add: bst_def)
next
  case False
  then obtain xs ys where n: "x = fresh t" "fresh t' = Suc (fresh t)"
    "inorder s = xs @ ys" "inorder s' = xs @ x # ys"
    "\<forall>a \<in> set xs. key (heap t a) < k" "\<forall>a \<in> set ys. k < key (heap t a)"
    and kx: "key (heap t' x) = k"
    and ka: "\<forall>a. a \<noteq> x \<longrightarrow> key (heap t' a) = key (heap t a)"
    using p by (auto simp: ins_post_def)
  have fr: "\<forall>a \<in> set (inorder s). a < fresh t" using b by (simp add: bst_def list_all_iff)
  then have x_out: "x \<notin> set xs" "x \<notin> set ys" using n(1,3) by auto
  have e: "map (\<lambda>a. key (heap t' a)) xs = map (\<lambda>a. key (heap t a)) xs"
    "map (\<lambda>a. key (heap t' a)) ys = map (\<lambda>a. key (heap t a)) ys"
    using x_out ka by (auto intro!: map_cong)
  have "sorted_wrt (<) (map (\<lambda>a. key (heap t a)) (xs @ ys))"
    using b n(3) by (simp add: bst_def keys_of_def)
  from sorted_insert_middle[OF this n(5,6)]
  have "sorted_wrt (<) (map (\<lambda>a. key (heap t' a)) xs @ key (heap t' x) # map (\<lambda>a. key (heap t' a)) ys)"
    unfolding e kx .
  then have "sorted_wrt (<) (keys_of t' s')"
    unfolding keys_of_def n(4) by simp
  moreover have "list_all (\<lambda>a. a < fresh t') (inorder s')"
    using fr n(1,2,3,4) by (fastforce simp: list_all_iff less_Suc_eq)
  ultimately show ?thesis using tr by (simp add: bst_def)
qed

lemma insert_bst:
  assumes "bst t s"
  shows "\<exists>t' s' x. SplayTree_insert t k v = Some t' \<and> bst t' s' \<and> ins_post t k v s t' s' x"
proof (cases s)
  case Tip
  then have rt: "root t = None" using assms by (simp add: bst_def)
  let ?x = "fresh t"
  let ?t' = "(snd (new_node k v None t))\<lparr>root := Some ?x\<rparr>"
  have i: "SplayTree_insert t k v = Some ?t'"
    using rt by (simp add: SplayTree_insert_def new_node_def)
  have tr: "tree_at ?t' None (root ?t') (Bin Tip ?x Tip)"
    by (simp add: new_node_def)
  have p: "ins_post t k v s ?t' (Bin Tip ?x Tip) ?x"
    using Tip by (simp add: ins_post_def new_node_def keys_of_def)
  show ?thesis using i ins_post_bst[OF assms tr p] p by blast
next
  case (Bin l n r)
  have tr: "tree_at t None (root t) s" and srt: "sorted_wrt (<) (keys_of t s)"
    and fr: "\<forall>a \<in> set (inorder s). a < fresh t"
    using assms by (auto simp: bst_def list_all_iff)
  have rt: "root t = Some n" using tr Bin by simp
  have 1: "way_at t None (root t) [] (Some n)" using rt by simp
  have 2: "tree_at t (upper None []) (Some n) s" using tr rt by simp
  have 3: "sorted_wrt (<) (keys_of t (plug [] s))" using srt by simp
  from insert_loop_way[OF 1 2 3, of k v] fr
  obtain t' s' x where f: "insert_loop t k v n = Some t'" "tree_at t' None (root t') s'"
    "ins_post t k v s t' s' x" by auto
  have "SplayTree_insert t k v = Some t'" using f(1) rt by (simp add: SplayTree_insert_def)
  then show ?thesis using ins_post_bst[OF assms f(2,3)] f(3) by blast
qed

lemma init_bst: "bst SplayTree_init Tip"
  by (simp add: bst_def SplayTree_init_def keys_of_def)

lemma tree_run_bst:
  "bst t s \<Longrightarrow> \<exists>t' s'. tree_run t calls = Some t' \<and> bst t' s'"
proof (induction calls arbitrary: t s)
  case Nil
  then show ?case by auto
next
  case (Cons c calls)
  have "\<exists>t1 s1. tree_step t c = Some t1 \<and> bst t1 s1"
  proof (cases c)
    case (Insert k v)
    then show ?thesis using insert_bst[OF Cons.prems, of k v] by auto
  next
    case (Lookup k)
    then show ?thesis using get_bst[OF Cons.prems, of k] by auto
  qed
  then obtain t1 s1 where "tree_step t c = Some t1" "bst t1 s1" by blast
  then show ?case using Cons.IH[of t1 s1] by simp
qed

lemma right_rotate_bst:
  assumes "bst t s" "x \<in> set (inorder s)"
  shows "\<exists>t' s'. right_rotate t x = Some t' \<and> same_data t t' \<and> bst t' s' \<and> inorder s' = inorder s"
proof -
  have tr: "tree_at t None (root t) s" and srt: "sorted_wrt (<) (keys_of t s)"
    using assms(1) by (auto simp: bst_def)
  from focus[OF tr assms(2)] obtain fs l r where f: "s = plug fs (Bin l x r)"
    "way_at t None (root t) fs (Some x)" "tree_at t (upper None fs) (Some x) (Bin l x r)" by blast
  show ?thesis
  proof (cases l)
    case Tip
    then have "left (heap t x) = None" using f(3) by simp
    then have "right_rotate t x = Some t" by (simp add: right_rotate_def)
    then show ?thesis using assms(1) by (intro exI[of _ t] exI[of _ s]) simp
  next
    case (Bin a y b)
    have d: "distinct (keys_of t (plug fs (Bin (Bin a y b) x r)))"
      using srt f(1) Bin sorted_distinct_keys by simp
    from right_rotate_way[OF f(2) _ d] f(3) Bin
    obtain t' where r: "right_rotate t x = Some t'" "same_data t t'"
      "way_at t' None (root t') fs (Some y)"
      "tree_at t' (upper None fs) (Some y) (Bin a y (Bin b x r))" by auto
    let ?s' = "plug fs (Bin a y (Bin b x r))"
    have tr': "tree_at t' None (root t') ?s'" using tree_at_plug[OF r(3,4)] .
    have io: "inorder ?s' = inorder s" by (simp add: f(1) Bin inorder_plug)
    show ?thesis using r(1,2) bst_same[OF assms(1) r(2) tr' io] io by blast
  qed
qed

lemma left_rotate_bst:
  assumes "bst t s" "x \<in> set (inorder s)"
  shows "\<exists>t' s'. left_rotate t x = Some t' \<and> same_data t t' \<and> bst t' s' \<and> inorder s' = inorder s"
proof -
  have tr: "tree_at t None (root t) s" and srt: "sorted_wrt (<) (keys_of t s)"
    using assms(1) by (auto simp: bst_def)
  from focus[OF tr assms(2)] obtain fs l r where f: "s = plug fs (Bin l x r)"
    "way_at t None (root t) fs (Some x)" "tree_at t (upper None fs) (Some x) (Bin l x r)" by blast
  show ?thesis
  proof (cases r)
    case Tip
    then have "right (heap t x) = None" using f(3) by simp
    then have "left_rotate t x = Some t" by (simp add: left_rotate_def)
    then show ?thesis using assms(1) by (intro exI[of _ t] exI[of _ s]) simp
  next
    case (Bin b y c)
    have d: "distinct (keys_of t (plug fs (Bin l x (Bin b y c))))"
      using srt f(1) Bin sorted_distinct_keys by simp
    from left_rotate_way[OF f(2) _ d] f(3) Bin
    obtain t' where r: "left_rotate t x = Some t'" "same_data t t'"
      "way_at t' None (root t') fs (Some y)"
      "tree_at t' (upper None fs) (Some y) (Bin (Bin l x b) y c)" by auto
    let ?s' = "plug fs (Bin (Bin l x b) y c)"
    have tr': "tree_at t' None (root t') ?s'" using tree_at_plug[OF r(3,4)] .
    have io: "inorder ?s' = inorder s" by (simp add: f(1) Bin inorder_plug)
    show ?thesis using r(1,2) bst_same[OF assms(1) r(2) tr' io] io by blast
  qed
qed

subsection \<open>The entries after an insertion\<close>

text \<open>
  The tree as a table from keys to values: an insertion updates it at the key; the memo
  table of \<open>fibonacci_splay\<close> holds Fibonacci numbers throughout.
\<close>

lemma map_of_overwrite:
  "distinct (map f xs) \<Longrightarrow> x \<in> set xs \<Longrightarrow>
     map_of (map (\<lambda>a. (f a, if a = x then v else g a)) xs)
       = (map_of (map (\<lambda>a. (f a, g a)) xs))(f x \<mapsto> v)"
proof (induction xs)
  case Nil
  then show ?case by simp
next
  case (Cons a xs)
  show ?case
  proof (cases "a = x")
    case True
    then have "x \<notin> set xs" using Cons.prems(1) by auto
    then have e: "map (\<lambda>a. (f a, if a = x then v else g a)) xs = map (\<lambda>a. (f a, g a)) xs"
      by (intro map_cong) auto
    show ?thesis unfolding list.map e using True by (simp add: fun_eq_iff)
  next
    case False
    then have "x \<in> set xs" "f a \<noteq> f x" using Cons.prems by auto
    then show ?thesis using Cons.IH Cons.prems(1) False by (auto simp: fun_eq_iff)
  qed
qed

lemma map_of_insert_middle:
  "k \<notin> fst ` set ex \<Longrightarrow> map_of (ex @ (k, v) # ey) = (map_of (ex @ ey))(k \<mapsto> v)"
proof (induction ex)
  case Nil
  then show ?case by (simp add: fun_eq_iff)
next
  case (Cons e ex)
  then show ?case by (auto simp: fun_eq_iff)
qed

lemma ins_post_entries:
  assumes b: "bst t s" and p: "ins_post t k v s t' s' x"
  shows "map_of (entries_of t' s') = (map_of (entries_of t s))(k \<mapsto> v)"
proof (cases "k \<in> set (keys_of t s)")
  case True
  then have io: "inorder s' = inorder s" and xin: "x \<in> set (inorder s)"
    and kx: "key (heap t x) = k" "key (heap t' x) = k" "val (heap t' x) = v"
    and ka: "\<forall>a. a \<noteq> x \<longrightarrow> key (heap t' a) = key (heap t a) \<and> val (heap t' a) = val (heap t a)"
    using p by (auto simp: ins_post_def)
  have d: "distinct (map (\<lambda>a. key (heap t a)) (inorder s))"
    using b sorted_distinct_keys by (auto simp: bst_def keys_of_def)
  have "entries_of t' s' = map (\<lambda>a. (key (heap t a), if a = x then v else val (heap t a))) (inorder s)"
    unfolding entries_of_def io using kx ka by (intro map_cong) auto
  then show ?thesis
    using map_of_overwrite[OF d xin, of v "\<lambda>a. val (heap t a)"] kx
    by (simp add: entries_of_def)
next
  case False
  then obtain xs ys where n: "x = fresh t" "inorder s = xs @ ys" "inorder s' = xs @ x # ys"
    and kx: "key (heap t' x) = k" "val (heap t' x) = v"
    and ka: "\<forall>a. a \<noteq> x \<longrightarrow> key (heap t' a) = key (heap t a) \<and> val (heap t' a) = val (heap t a)"
    using p by (auto simp: ins_post_def)
  have fr: "\<forall>a \<in> set (inorder s). a < fresh t" using b by (simp add: bst_def list_all_iff)
  then have x_out: "x \<notin> set xs" "x \<notin> set ys" using n(1,2) by auto
  let ?e = "\<lambda>t a. (key (heap t a), val (heap t a))"
  have e: "map (?e t') xs = map (?e t) xs" "map (?e t') ys = map (?e t) ys"
    using x_out ka by (auto intro!: map_cong)
  have "entries_of t' s' = map (?e t') xs @ ?e t' x # map (?e t') ys"
    by (simp add: entries_of_def n(3))
  then have 1: "entries_of t' s' = map (?e t) xs @ (k, v) # map (?e t) ys"
    unfolding e using kx by simp
  have 2: "entries_of t s = map (?e t) xs @ map (?e t) ys"
    by (simp add: entries_of_def n(2))
  have "k \<notin> fst ` set (map (?e t) xs)"
    using False n(2) by (auto simp: keys_of_def)
  then show ?thesis unfolding 1 2 by (rule map_of_insert_middle)
qed







subsection \<open>The example tree\<close>

lemma example_bst: "bst example_tree example_shape"
  by (simp add: bst_def example_tree_def example_shape_def keys_of_def)

text \<open>
  The example state is the one the three inserts reach, node by node, and the scenario
  \<open>insert(5,5)\<close>, \<open>insert(3,3)\<close>, \<open>insert(8,8)\<close>, \<open>get(3)\<close> ends with key 3 at the root
  and the keys 3, 5, 8 in order.
\<close>

lemma example_reached:
  "map_option (\<lambda>t. (root t, fresh t, map (heap t) [0 ..< fresh t]))
     (tree_run SplayTree_init [Insert 3 30, Insert 8 80, Insert 5 50])
   = Some (root example_tree, fresh example_tree, map (heap example_tree) [0 ..< fresh example_tree])"
  by code_simp

lemma scenario_C:
  "map_option (\<lambda>t. (map_option (\<lambda>a. key (heap t a)) (root t),
                    tree_at t None (root t) (Bin Tip 1 (Bin Tip 0 (Bin Tip 2 Tip))),
                    keys_of t (Bin Tip 1 (Bin Tip 0 (Bin Tip 2 Tip)))))
     (tree_run SplayTree_init [Insert 5 5, Insert 3 3, Insert 8 8, Lookup 3])
   = Some (Some 3, True, [3, 5, 8])"
  by code_simp

subsection \<open>Self-adjustment\<close>

text \<open>
  C3 (self-adjustment of the adaptive cache).  Every sequence of \<open>insert\<close> and \<open>get\<close>
  calls on the empty tree returns, in a state that holds a binary search tree.  In every
  state \<open>t\<close> that holds a binary search tree of shape \<open>s\<close>:

  \<^item> \<open>get(k)\<close> returns the value stored for \<open>k\<close>, or ABSENT when \<open>k\<close> is not a key of
    the tree; it keeps the nodes, their order, keys and values, and leaves at the root
    the node at which the descent stops: the node holding \<open>k\<close> when \<open>k\<close> is a key,
    otherwise the last node visited before the missing child.  On the empty tree it
    returns ABSENT and leaves the state as it was.

  \<^item> \<open>insert(k, v)\<close> leaves at the root a node with key \<open>k\<close> and value \<open>v\<close>, and the
    tree then maps \<open>k\<close> to \<open>v\<close> and every other key as before.  When \<open>k\<close> was a key,
    that node is the node that held \<open>k\<close>, the nodes and their order are unchanged and no
    node is allocated: the value is overwritten in place, without a duplicate.
    Otherwise the node is the one new node, and the tree has exactly one node more.
\<close>

theorem self_adjustment:
  "(\<exists>t0 s0. tree_run SplayTree_init calls = Some t0 \<and> bst t0 s0) \<and>
   (bst t s \<longrightarrow>
     (\<exists>t1 s1. SplayTree_get t k = Some (map_of (entries_of t s) k, t1) \<and>
        bst t1 s1 \<and> same_data t t1 \<and> inorder s1 = inorder s \<and>
        root t1 = last_visited t k s \<and>
        (k \<in> set (keys_of t s) \<longrightarrow>
           (\<exists>x. root t1 = Some x \<and> x \<in> set (inorder s) \<and> key (heap t1 x) = k \<and>
                map_of (entries_of t s) k = Some (val (heap t1 x)))) \<and>
        (k \<notin> set (keys_of t s) \<longrightarrow> map_of (entries_of t s) k = None) \<and>
        (s = Tip \<longrightarrow> map_of (entries_of t s) k = None \<and> t1 = t)) \<and>
     (\<exists>t2 s2 x. SplayTree_insert t k v = Some t2 \<and> bst t2 s2 \<and>
        root t2 = Some x \<and> key (heap t2 x) = k \<and> val (heap t2 x) = v \<and>
        map_of (entries_of t2 s2) = (map_of (entries_of t s))(k \<mapsto> v) \<and>
        (k \<in> set (keys_of t s) \<longrightarrow>
           x \<in> set (inorder s) \<and> key (heap t x) = k \<and> inorder s2 = inorder s \<and>
           fresh t2 = fresh t) \<and>
        (k \<notin> set (keys_of t s) \<longrightarrow>
           x = fresh t \<and> x \<notin> set (inorder s) \<and> fresh t2 = Suc (fresh t) \<and>
           set (inorder s2) = insert x (set (inorder s)) \<and>
           length (inorder s2) = Suc (length (inorder s)))))"
proof (intro conjI impI)
  show "\<exists>t0 s0. tree_run SplayTree_init calls = Some t0 \<and> bst t0 s0"
    using tree_run_bst[OF init_bst] .
next
  assume b: "bst t s"
  have srt: "sorted_wrt (<) (keys_of t s)" using b by (simp add: bst_def)
  have d: "distinct (map fst (entries_of t s))"
    using srt sorted_distinct_keys by (simp add: entries_keys)
  from get_bst[OF b, of k]
  obtain t1 s1 where g: "SplayTree_get t k = Some (map_of (entries_of t s) k, t1)" "bst t1 s1"
    "same_data t t1" "inorder s1 = inorder s" "root t1 = last_visited t k s" "s = Tip \<longrightarrow> t1 = t"
    by blast
  have none: "map_of (entries_of t s) k = None" if "k \<notin> set (keys_of t s)"
    using that by (simp add: map_of_eq_None_iff entries_keys[symmetric] del: entries_keys)
  have found: "\<exists>x. root t1 = Some x \<and> x \<in> set (inorder s) \<and> key (heap t1 x) = k \<and>
                map_of (entries_of t s) k = Some (val (heap t1 x))" if kin: "k \<in> set (keys_of t s)"
  proof -
    from kin obtain w where w: "map_of (entries_of t s) k = Some w"
      by (metis entries_keys map_of_eq_None_iff not_Some_eq set_map)
    have "s \<noteq> Tip" using kin by (auto simp: keys_of_def)
    then obtain l n r where s: "s = Bin l n r" by (cases s) auto
    have tr: "tree_at t None (root t) s" using b by (simp add: bst_def)
    have 1: "way_at t None (root t) [] (Some n)" using tr s by simp
    have 2: "tree_at t (upper None []) (Some n) s" using tr s by simp
    have 3: "sorted_wrt (<) (keys_of t (plug [] s))" using srt by simp
    from find_loop_way[OF 1 2 3, of k]
    obtain t' s' res x where f: "find_loop t k (Some n) = Some (res, t')" "same_data t t'"
      "root t' = Some x" "x \<in> set (inorder s)" "res = Some x" "key (heap t x) = k"
      using kin by auto
    have "SplayTree_get t k = Some (Some (val (heap t' x)), t')"
      using f(1,5) tr s by (simp add: SplayTree_get_def find_node_def)
    then have "t1 = t'" "map_of (entries_of t s) k = Some (val (heap t' x))" using g(1) by auto
    then show ?thesis using f by (auto simp: same_data_def)
  qed
  show "\<exists>t1 s1. SplayTree_get t k = Some (map_of (entries_of t s) k, t1) \<and>
        bst t1 s1 \<and> same_data t t1 \<and> inorder s1 = inorder s \<and>
        root t1 = last_visited t k s \<and>
        (k \<in> set (keys_of t s) \<longrightarrow>
           (\<exists>x. root t1 = Some x \<and> x \<in> set (inorder s) \<and> key (heap t1 x) = k \<and>
                map_of (entries_of t s) k = Some (val (heap t1 x)))) \<and>
        (k \<notin> set (keys_of t s) \<longrightarrow> map_of (entries_of t s) k = None) \<and>
        (s = Tip \<longrightarrow> map_of (entries_of t s) k = None \<and> t1 = t)"
    using g none found
    by (intro exI[of _ t1] exI[of _ s1]) (auto simp: entries_of_def)
next
  assume b: "bst t s"
  from insert_bst[OF b, of k v]
  obtain t2 s2 x where i: "SplayTree_insert t k v = Some t2" "bst t2 s2" "ins_post t k v s t2 s2 x"
    by blast
  have fr: "\<forall>a \<in> set (inorder s). a < fresh t" using b by (simp add: bst_def list_all_iff)
  have new: "x = fresh t \<and> x \<notin> set (inorder s) \<and> fresh t2 = Suc (fresh t) \<and>
           set (inorder s2) = insert x (set (inorder s)) \<and>
           length (inorder s2) = Suc (length (inorder s))" if "k \<notin> set (keys_of t s)"
  proof -
    from that i(3) obtain xs ys where "x = fresh t" "fresh t2 = Suc (fresh t)"
      "inorder s = xs @ ys" "inorder s2 = xs @ x # ys"
      by (auto simp: ins_post_def)
    then show ?thesis using fr by auto
  qed
  show "\<exists>t2 s2 x. SplayTree_insert t k v = Some t2 \<and> bst t2 s2 \<and>
        root t2 = Some x \<and> key (heap t2 x) = k \<and> val (heap t2 x) = v \<and>
        map_of (entries_of t2 s2) = (map_of (entries_of t s))(k \<mapsto> v) \<and>
        (k \<in> set (keys_of t s) \<longrightarrow>
           x \<in> set (inorder s) \<and> key (heap t x) = k \<and> inorder s2 = inorder s \<and>
           fresh t2 = fresh t) \<and>
        (k \<notin> set (keys_of t s) \<longrightarrow>
           x = fresh t \<and> x \<notin> set (inorder s) \<and> fresh t2 = Suc (fresh t) \<and>
           set (inorder s2) = insert x (set (inorder s)) \<and>
           length (inorder s2) = Suc (length (inorder s)))"
    using i ins_post_entries[OF b i(3)] new
    by (intro exI[of _ t2] exI[of _ s2] exI[of _ x]) (auto simp: ins_post_def)
qed

text \<open>
  The theorem on the example tree: \<open>get(3)\<close> finds 30 and brings the node of key 3 to
  the root; \<open>get(4)\<close> is ABSENT and brings the last node visited, that of key 3, to the
  root; \<open>insert(3, 31)\<close> overwrites in the same node; \<open>insert(4, 40)\<close> allocates node 3 and
  brings it to the root; \<open>get(7)\<close> on the empty tree changes nothing.
\<close>

theorem self_adjustment_witness:
  "bst example_tree example_shape \<and>
   3 \<in> set (keys_of example_tree example_shape) \<and>
   4 \<notin> set (keys_of example_tree example_shape) \<and>
   (\<exists>t1. SplayTree_get example_tree 3 = Some (Some 30, t1) \<and> root t1 = Some 0 \<and>
         key (heap t1 0) = 3) \<and>
   (\<exists>t1. SplayTree_get example_tree 4 = Some (None, t1) \<and> root t1 = Some 0) \<and>
   (\<exists>t2. SplayTree_insert example_tree 3 31 = Some t2 \<and> root t2 = Some 0 \<and>
         val (heap t2 0) = 31 \<and> fresh t2 = 3) \<and>
   (\<exists>t2. SplayTree_insert example_tree 4 40 = Some t2 \<and> root t2 = Some 3 \<and>
         key (heap t2 3) = 4 \<and> fresh t2 = 4) \<and>
   bst SplayTree_init Tip \<and>
   SplayTree_get SplayTree_init 7 = Some (None, SplayTree_init)"
proof -
  have b: "bst example_tree example_shape" by (rule example_bst)
  have k: "keys_of example_tree example_shape = [3, 5, 8]"
    "map_of (entries_of example_tree example_shape) 3 = Some 30"
    "map_of (entries_of example_tree example_shape) 4 = None"
    "last_visited example_tree 3 example_shape = Some 0"
    "last_visited example_tree 4 example_shape = Some 0"
    "fresh example_tree = 3"
    by (simp_all add: keys_of_def entries_of_def example_tree_def example_shape_def)
  have n: "x \<in> set (inorder example_shape) \<Longrightarrow> key (heap example_tree x) = 3 \<Longrightarrow> x = 0" for x
    by (auto simp: example_tree_def example_shape_def)
  have i: "bst SplayTree_init Tip" by (rule init_bst)
  from self_adjustment[of "[]" example_tree example_shape 3 31] b
  obtain t1 s1 t2 s2 x where
    g: "SplayTree_get example_tree 3 = Some (map_of (entries_of example_tree example_shape) 3, t1)"
      "root t1 = last_visited example_tree 3 example_shape"
      "3 \<in> set (keys_of example_tree example_shape) \<longrightarrow>
         (\<exists>x. root t1 = Some x \<and> x \<in> set (inorder example_shape) \<and> key (heap t1 x) = 3 \<and>
              map_of (entries_of example_tree example_shape) 3 = Some (val (heap t1 x)))"
    and p: "SplayTree_insert example_tree 3 31 = Some t2" "root t2 = Some x" "val (heap t2 x) = 31"
      "3 \<in> set (keys_of example_tree example_shape) \<longrightarrow>
           x \<in> set (inorder example_shape) \<and> key (heap example_tree x) = 3 \<and>
           inorder s2 = inorder example_shape \<and> fresh t2 = fresh example_tree"
    by blast
  have 1: "\<exists>t1. SplayTree_get example_tree 3 = Some (Some 30, t1) \<and> root t1 = Some 0 \<and>
         key (heap t1 0) = 3"
    using g k by auto
  have "x = 0" "fresh t2 = 3" using p(4) k n by auto
  then have 2: "\<exists>t2. SplayTree_insert example_tree 3 31 = Some t2 \<and> root t2 = Some 0 \<and>
         val (heap t2 0) = 31 \<and> fresh t2 = 3"
    using p by auto
  from self_adjustment[of "[]" example_tree example_shape 4 40] b
  obtain u1 r1 u2 r2 y where
    g': "SplayTree_get example_tree 4 = Some (map_of (entries_of example_tree example_shape) 4, u1)"
      "root u1 = last_visited example_tree 4 example_shape"
    and p': "SplayTree_insert example_tree 4 40 = Some u2" "root u2 = Some y" "key (heap u2 y) = 4"
      "4 \<notin> set (keys_of example_tree example_shape) \<longrightarrow>
           y = fresh example_tree \<and> y \<notin> set (inorder example_shape) \<and>
           fresh u2 = Suc (fresh example_tree) \<and>
           set (inorder r2) = insert y (set (inorder example_shape)) \<and>
           length (inorder r2) = Suc (length (inorder example_shape))"
    by blast
  have 3: "\<exists>t1. SplayTree_get example_tree 4 = Some (None, t1) \<and> root t1 = Some 0"
    using g' k by auto
  have "y = 3" "fresh u2 = 4" using p'(4) k by auto
  then have 4: "\<exists>t2. SplayTree_insert example_tree 4 40 = Some t2 \<and> root t2 = Some 3 \<and>
         key (heap t2 3) = 4 \<and> fresh t2 = 4"
    using p' by auto
  from self_adjustment[of "[]" SplayTree_init Tip 7 0] i
  have 5: "SplayTree_get SplayTree_init 7 = Some (None, SplayTree_init)"
    by auto
  show ?thesis using b k(1) i 1 2 3 4 5 by simp
qed

subsection \<open>The search tree order\<close>

text \<open>
  C4 (binary search tree order preserved).  Every sequence of \<open>insert\<close> and \<open>get\<close>
  calls on the empty tree returns, and leaves a state whose root link leads to a tree of
  exactly one shape, whose in-order traversal has strictly increasing keys.  In a state
  that holds a binary search tree, a single right or left rotation about any of its nodes
  returns and leaves a tree with the same nodes in the same in-order sequence, hence the
  same keys and entries in order.
\<close>

theorem bst_order_preserved:
  "(\<exists>t0 s0. tree_run SplayTree_init calls = Some t0 \<and> tree_at t0 None (root t0) s0 \<and>
        (\<forall>s'. tree_at t0 None (root t0) s' \<longrightarrow> s' = s0) \<and>
        sorted_wrt (<) (keys_of t0 s0)) \<and>
   (bst t s \<and> x \<in> set (inorder s) \<longrightarrow>
      (\<exists>t' s'. right_rotate t x = Some t' \<and> tree_at t' None (root t') s' \<and>
         sorted_wrt (<) (keys_of t' s') \<and> inorder s' = inorder s \<and>
         keys_of t' s' = keys_of t s \<and> entries_of t' s' = entries_of t s) \<and>
      (\<exists>t' s'. left_rotate t x = Some t' \<and> tree_at t' None (root t') s' \<and>
         sorted_wrt (<) (keys_of t' s') \<and> inorder s' = inorder s \<and>
         keys_of t' s' = keys_of t s \<and> entries_of t' s' = entries_of t s))"
proof (intro conjI impI)
  from tree_run_bst[OF init_bst, of calls]
  obtain t0 s0 where r: "tree_run SplayTree_init calls = Some t0" "bst t0 s0" by blast
  then have "tree_at t0 None (root t0) s0" "sorted_wrt (<) (keys_of t0 s0)"
    by (simp_all add: bst_def)
  moreover from this have "\<forall>s'. tree_at t0 None (root t0) s' \<longrightarrow> s' = s0"
    using tree_at_unique by blast
  ultimately show "\<exists>t0 s0. tree_run SplayTree_init calls = Some t0 \<and> tree_at t0 None (root t0) s0 \<and>
        (\<forall>s'. tree_at t0 None (root t0) s' \<longrightarrow> s' = s0) \<and>
        sorted_wrt (<) (keys_of t0 s0)"
    using r(1) by blast
next
  assume a: "bst t s \<and> x \<in> set (inorder s)"
  from right_rotate_bst[of t s x] a
  obtain t' s' where r: "right_rotate t x = Some t'" "same_data t t'" "bst t' s'"
    "inorder s' = inorder s" by blast
  then show "\<exists>t' s'. right_rotate t x = Some t' \<and> tree_at t' None (root t') s' \<and>
         sorted_wrt (<) (keys_of t' s') \<and> inorder s' = inorder s \<and>
         keys_of t' s' = keys_of t s \<and> entries_of t' s' = entries_of t s"
    using keys_of_same[OF r(2,4)] entries_same[OF r(2,4)]
    by (intro exI[of _ t'] exI[of _ s']) (simp add: bst_def)
next
  assume a: "bst t s \<and> x \<in> set (inorder s)"
  from left_rotate_bst[of t s x] a
  obtain t' s' where r: "left_rotate t x = Some t'" "same_data t t'" "bst t' s'"
    "inorder s' = inorder s" by blast
  then show "\<exists>t' s'. left_rotate t x = Some t' \<and> tree_at t' None (root t') s' \<and>
         sorted_wrt (<) (keys_of t' s') \<and> inorder s' = inorder s \<and>
         keys_of t' s' = keys_of t s \<and> entries_of t' s' = entries_of t s"
    using keys_of_same[OF r(2,4)] entries_same[OF r(2,4)]
    by (intro exI[of _ t'] exI[of _ s']) (simp add: bst_def)
qed

text \<open>
  The theorem on the example tree, rotated about its root: the keys stay 3, 5, 8.
\<close>

theorem bst_order_preserved_witness:
  "bst example_tree example_shape \<and> 2 \<in> set (inorder example_shape) \<and>
   keys_of example_tree example_shape = [3, 5, 8] \<and>
   (\<exists>t' s'. right_rotate example_tree 2 = Some t' \<and> tree_at t' None (root t') s' \<and>
      keys_of t' s' = [3, 5, 8]) \<and>
   (\<exists>t' s'. left_rotate example_tree 2 = Some t' \<and> tree_at t' None (root t') s' \<and>
      keys_of t' s' = [3, 5, 8])"
proof -
  have b: "bst example_tree example_shape" by (rule example_bst)
  have k: "keys_of example_tree example_shape = [3, 5, 8]" "2 \<in> set (inorder example_shape)"
    by (simp_all add: keys_of_def example_tree_def example_shape_def)
  from bst_order_preserved[of "[]" example_tree example_shape 2] b k
  have "\<exists>t' s'. right_rotate example_tree 2 = Some t' \<and> tree_at t' None (root t') s' \<and>
      keys_of t' s' = [3, 5, 8]"
    "\<exists>t' s'. left_rotate example_tree 2 = Some t' \<and> tree_at t' None (root t') s' \<and>
      keys_of t' s' = [3, 5, 8]"
    by auto
  then show ?thesis using b k by simp
qed

subsection \<open>The two Fibonacci functions\<close>




end
